theory Spec2Isabelle
  imports Main "HOL-Library.Sublist"
begin

text \<open>
  A shallow embedding of the core of the localization editor: the path codec of the
  utilities module (\<open>flattenObject\<close>, \<open>unflattenObject\<close>), the suggestion service
  (\<open>getTranslationSuggestions\<close>) and, from \<open>App.tsx\<close>, the merge of a fetch into the row
  table (\<open>handleFetchFiles\<close>), the search filter (\<open>filteredRows\<close>), the bulk suggestion
  run (\<open>handleSuggestAll\<close>), the push (\<open>handlePushToGitHub\<close>) and \<open>modifiedCount\<close>.
  The network, the AI provider, the regular expression engine and the walkjs traversal
  are not code of the editor: the first three are parameters, the traversal is written
  out as the library documents it. The definitions come first, the properties after them.
\<close>

section \<open>JavaScript strings\<close>

text \<open>
  Strings are \<open>char list\<close>. The string methods the sources call are written out below with
  the argument order of the method call, receiver first. Only ASCII is modelled:
  \<open>toLowerCase\<close> folds the letters A to Z, \<open>trim\<close> strips the ASCII white space.
\<close>

definition dq :: char where
  "dq = CHR 0x22"

definition sq :: char where
  "sq = CHR 0x27"

definition toLowerCase_char :: "char \<Rightarrow> char" where
  "toLowerCase_char c =
     (case map_of (zip ''ABCDEFGHIJKLMNOPQRSTUVWXYZ'' ''abcdefghijklmnopqrstuvwxyz'') c of
        Some l \<Rightarrow> l
      | None \<Rightarrow> c)"

definition toLowerCase :: "string \<Rightarrow> string" where
  "toLowerCase s = map toLowerCase_char s"

text \<open>\<open>s.includes(t)\<close>: \<open>t\<close> occurs in \<open>s\<close> as a contiguous run.\<close>

fun includes_str :: "string \<Rightarrow> string \<Rightarrow> bool" where
  "includes_str [] t = (t = [])"
| "includes_str (c # cs) t = (prefix t (c # cs) \<or> includes_str cs t)"

text \<open>\<open>s.indexOf(t)\<close>: the first position of \<open>t\<close> in \<open>s\<close>, or \<open>-1\<close>.\<close>

fun indexOf :: "string \<Rightarrow> string \<Rightarrow> int" where
  "indexOf [] t = (if t = [] then 0 else -1)"
| "indexOf (c # cs) t =
     (if prefix t (c # cs) then 0
      else (let i = indexOf cs t in if i < 0 then -1 else i + 1))"

text \<open>
  \<open>s.substring(a, b)\<close>: both arguments are clamped to \<open>0 .. s.length\<close> and swapped when
  the first exceeds the second.
\<close>

definition substring :: "string \<Rightarrow> int \<Rightarrow> int \<Rightarrow> string" where
  "substring s a b =
     (let n = int (length s);
          a' = max 0 (min a n);
          b' = max 0 (min b n);
          lo = min a' b';
          hi = max a' b'
      in take (nat (hi - lo)) (drop (nat lo) s))"

definition is_space :: "char \<Rightarrow> bool" where
  "is_space c = (c \<in> set [CHR 0x09, CHR 0x0A, CHR 0x0B, CHR 0x0C, CHR 0x0D, CHR 0x20])"

definition trim :: "string \<Rightarrow> string" where
  "trim s = rev (dropWhile is_space (rev (dropWhile is_space s)))"

text \<open>
  \<open>s.split(sep)\<close> and \<open>s.replaceAll(pat, rep)\<close> for a non-empty string separator or
  pattern (the sources only pass the literals \<open>||\<close>, \<open>.\<close>, \<open>][\<close> and the two quote
  characters): matches are found from the left and do not overlap.
\<close>

function split :: "string \<Rightarrow> string \<Rightarrow> string list" where
  "split [] sep = [[]]"
| "split (c # cs) sep =
     (if sep \<noteq> [] \<and> prefix sep (c # cs) then [] # split (drop (length sep) (c # cs)) sep
      else (case split cs sep of
              [] \<Rightarrow> [[c]]
            | p # ps \<Rightarrow> (c # p) # ps))"
  by pat_completeness auto
termination
  by (relation "measure (\<lambda>(s, sep). length s)") (auto simp: neq_Nil_conv)

function replaceAll :: "string \<Rightarrow> string \<Rightarrow> string \<Rightarrow> string" where
  "replaceAll [] pat rep = []"
| "replaceAll (c # cs) pat rep =
     (if pat \<noteq> [] \<and> prefix pat (c # cs) then rep @ replaceAll (drop (length pat) (c # cs)) pat rep
      else c # replaceAll cs pat rep)"
  by pat_completeness auto
termination
  by (relation "measure (\<lambda>(s, pat, rep). length s)") (auto simp: neq_Nil_conv)

text \<open>Decimal digits, \<open>Number.prototype.toString\<close> on integers, and array indices.\<close>

definition digit_char :: "nat \<Rightarrow> char" where
  "digit_char n = ''0123456789'' ! (n mod 10)"

definition is_digit :: "char \<Rightarrow> bool" where
  "is_digit c = (c \<in> set ''0123456789'')"

definition digit_val :: "char \<Rightarrow> nat" where
  "digit_val c =
     (case map_of (zip ''0123456789'' [0, 1, 2, 3, 4, 5, 6, 7, 8, 9]) c of
        Some n \<Rightarrow> n
      | None \<Rightarrow> 0)"

fun show_nat :: "nat \<Rightarrow> string" where
  "show_nat n = (if n < 10 then [digit_char n] else show_nat (n div 10) @ [digit_char n])"

declare show_nat.simps [simp del]

definition show_int :: "int \<Rightarrow> string" where
  "show_int i = (if i < 0 then CHR ''-'' # show_nat (nat (- i)) else show_nat (nat i))"

definition read_nat :: "string \<Rightarrow> nat" where
  "read_nat s = foldl (\<lambda>n c. 10 * n + digit_val c) 0 s"

text \<open>
  A property name is an array index when it is the canonical decimal numeral of an integer
  below \<open>2^32 - 1\<close>.
\<close>

definition array_index :: "string \<Rightarrow> nat option" where
  "array_index k =
     (if k \<noteq> [] \<and> list_all is_digit k \<and> show_nat (read_nat k) = k \<and> read_nat k < 4294967295
      then Some (read_nat k) else None)"

section \<open>Values, objects and documents\<close>

text \<open>
  \<open>ValueType = string | number | boolean\<close> of \<open>types.ts\<close>. Numbers are the integers:
  floating point is outside the embedding, and so are the integers of magnitude \<open>10^21\<close>
  and above, which \<open>toString\<close> prints with an exponent.
\<close>

datatype ValueType = Str string | Num int | Bool bool

definition truthy :: "ValueType \<Rightarrow> bool" where
  "truthy v = (case v of Str s \<Rightarrow> s \<noteq> [] | Num n \<Rightarrow> n \<noteq> 0 | Bool b \<Rightarrow> b)"

definition toString :: "ValueType \<Rightarrow> string" where
  "toString v = (case v of Str s \<Rightarrow> s | Num n \<Rightarrow> show_int n | Bool b \<Rightarrow> (if b then ''true'' else ''false''))"

text \<open>
  A plain object is the list of its own properties in the order \<open>Object.keys\<close> and
  \<open>for ... in\<close> enumerate them: array-index names first, ascending, then the other names
  in the order they were created. \<open>obj[k] = v\<close> keeps the place of an existing property.
\<close>

type_synonym 'v object = "(string \<times> 'v) list"

fun insert_index :: "nat \<Rightarrow> string \<Rightarrow> 'v \<Rightarrow> 'v object \<Rightarrow> 'v object" where
  "insert_index i k v [] = [(k, v)]"
| "insert_index i k v (p # ps) =
     (case array_index (fst p) of
        Some j \<Rightarrow> if j < i then p # insert_index i k v ps else (k, v) # p # ps
      | None \<Rightarrow> (k, v) # p # ps)"

definition set_property :: "'v object \<Rightarrow> string \<Rightarrow> 'v \<Rightarrow> 'v object" where
  "set_property obj k v =
     (if k \<in> fst ` set obj then map (\<lambda>p. if fst p = k then (k, v) else p) obj
      else (case array_index k of
              Some i \<Rightarrow> insert_index i k v obj
            | None \<Rightarrow> obj @ [(k, v)]))"

definition get_property :: "'v object \<Rightarrow> string \<Rightarrow> 'v option" where
  "get_property obj k = map_of obj k"

definition keys :: "'v object \<Rightarrow> string list" where
  "keys obj = map fst obj"

section \<open>Rows and the re-fetch merge of \<open>handleFetchFiles\<close>\<close>

text \<open>
  \<open>TranslationRow\<close> of \<open>types.ts\<close>; \<open>aiSuggestion\<close> is the optional field. The declared
  field \<open>pastSourceValue\<close> is never written or read by the sources and is left out.
\<close>

record TranslationRow =
  key :: string
  sourceValue :: string
  targetValue :: string
  originalTargetValue :: string
  aiSuggestion :: "string option"

text \<open>\<open>rows.filter(r => r.key === key)[0]\<close>: the first row under the key, if any.\<close>

definition row_for :: "TranslationRow list \<Rightarrow> string \<Rightarrow> TranslationRow option" where
  "row_for rows k = find (\<lambda>r. key r = k) rows"

text \<open>
  \<open>typeof flatSource[key] === 'string'\<close>, with the string when the test holds; on a string
  \<open>toString\<close> is the identity.
\<close>

definition source_string :: "ValueType object \<Rightarrow> string \<Rightarrow> string option" where
  "source_string flatSource k =
     (case get_property flatSource k of
        Some (Str s) \<Rightarrow> Some s
      | _ \<Rightarrow> None)"

text \<open>
  \<open>flatTarget[key] ? flatTarget[key].toString() : flatSource[key].toString()\<close>, for the
  source string \<open>s\<close>.
\<close>

definition target_or_source :: "ValueType object \<Rightarrow> string \<Rightarrow> string \<Rightarrow> string" where
  "target_or_source flatTarget k s =
     (case get_property flatTarget k of
        Some t \<Rightarrow> if truthy t then toString t else s
      | None \<Rightarrow> s)"

text \<open>
  The computation of \<open>newRows\<close> in \<open>handleFetchFiles\<close> (App.tsx, lines 177 to 189): the
  keys of the flat source that hold a string, each mapped to its row. The active project
  is present there, so the test on \<open>activeProject\<close> is the comparison of the old row's
  two target fields, which holds when there is no old row.
\<close>

definition new_row :: "TranslationRow list \<Rightarrow> ValueType object \<Rightarrow> string \<Rightarrow> string \<Rightarrow> TranslationRow" where
  "new_row rows flatTarget k s =
     (let row = row_for rows k in
      \<lparr> key = k,
        sourceValue = s,
        targetValue =
          (if map_option targetValue row = map_option originalTargetValue row
           then target_or_source flatTarget k s
           else (case row of Some r \<Rightarrow> targetValue r | None \<Rightarrow> [])),
        originalTargetValue = target_or_source flatTarget k s,
        aiSuggestion =
          (case row of
             Some r \<Rightarrow> (case aiSuggestion r of Some a \<Rightarrow> Some a | None \<Rightarrow> Some [])
           | None \<Rightarrow> Some []) \<rparr>)"

definition newRows :: "TranslationRow list \<Rightarrow> ValueType object \<Rightarrow> ValueType object \<Rightarrow> TranslationRow list" where
  "newRows rows flatSource flatTarget =
     List.map_filter (\<lambda>k. map_option (new_row rows flatTarget k) (source_string flatSource k))
       (keys flatSource)"

section \<open>Documents and the path codec\<close>

text \<open>
  A document is what \<open>JSON.parse\<close> returns for a locale file: scalar values, plain
  objects and arrays (\<open>null\<close> is left out, as in \<open>ValueType\<close>).
\<close>

datatype json = Value ValueType | Object "(string \<times> json) list" | Array "json list"

text \<open>
  \<open>walk\<close> of the walkjs library with its defaults, restricted by the filter of
  \<open>flattenObject\<close> to the nodes that are neither object nor array: depth first, the members
  of an object in \<open>Object.keys\<close> order, the elements of an array by index. The first
  argument is \<open>node.getPath()\<close>: empty at the root, extended by \<open>["key"]\<close> for a member
  of an object and by \<open>[i]\<close> for an element of an array.
\<close>

function walk :: "string \<Rightarrow> json \<Rightarrow> (string \<times> ValueType) list" where
  "walk path (Value v) = [(path, v)]"
| "walk path (Object ps) =
     concat (map (\<lambda>p. walk (path @ ''['' @ [dq] @ fst p @ [dq] @ '']'') (snd p)) ps)"
| "walk path (Array xs) =
     concat (map (\<lambda>p. walk (path @ ''['' @ show_nat (fst p) @ '']'') (snd p)) (zip [0 ..< length xs] xs))"
  by pat_completeness auto
termination
proof (relation "measure (\<lambda>(path, j). size j)")
  show "wf (measure (\<lambda>(path, j). size j))"
    by simp
next
  fix path :: string and ps :: "(string \<times> json) list" and p
  assume "p \<in> set ps"
  then have "size (snd p) < Suc (size_list (size_prod (\<lambda>_. 0) size) ps)"
    by (induction ps) (auto simp: less_Suc_eq_le)
  then show "((path @ ''['' @ [dq] @ fst p @ [dq] @ '']'', snd p), (path, Object ps))
      \<in> measure (\<lambda>(path, j). size j)"
    by simp
next
  fix path :: string and xs :: "json list" and p
  assume "p \<in> set (zip [0 ..< length xs] xs)"
  then have "snd p \<in> set xs"
    by (metis prod.collapse set_zip_rightD)
  then have "size (snd p) < Suc (size_list size xs)"
    by (induction xs) (auto simp: less_Suc_eq_le)
  then show "((path @ ''['' @ show_nat (fst p) @ '']'', snd p), (path, Array xs))
      \<in> measure (\<lambda>(path, j). size j)"
    by simp
qed

text \<open>The key computed by the callback of \<open>flattenObject\<close> from the node's path.\<close>

definition flat_key :: "string \<Rightarrow> string" where
  "flat_key raw =
     replaceAll (replaceAll (substring raw 1 (int (length raw) - 1)) '']['' ''.'') [dq] [sq]"

definition flattenObject :: "json \<Rightarrow> ValueType object" where
  "flattenObject obj =
     foldl (\<lambda>newObj p. set_property newObj (flat_key (fst p)) (snd p)) [] (walk [] obj)"

text \<open>
  Errors. \<open>TypeError\<close> is raised by an assignment to a property of a primitive value (the
  sources are modules, hence strict code) and \<open>SyntaxError\<close> by \<open>new RegExp\<close>.
  \<open>NotADocument\<close> is no exception: it marks an assignment after which the value is no
  \<open>json\<close> any more (an array with a hole or with a named property), where the embedding
  stops. Properties inherited from the prototypes are not modelled.
\<close>

datatype error = TypeError | SyntaxError | NotADocument

definition truthy_json :: "json \<Rightarrow> bool" where
  "truthy_json j = (case j of Value v \<Rightarrow> truthy v | _ \<Rightarrow> True)"

text \<open>\<open>acc[k]\<close> read and \<open>acc[k] = c\<close> written, for a property name \<open>k\<close>.\<close>

definition get_member :: "json \<Rightarrow> string \<Rightarrow> json option" where
  "get_member acc k =
     (case acc of
        Object ps \<Rightarrow> get_property ps k
      | Array xs \<Rightarrow>
          (case array_index k of
             Some i \<Rightarrow> if i < length xs then Some (xs ! i) else None
           | None \<Rightarrow> None)
      | Value v \<Rightarrow> None)"

definition put_member :: "json \<Rightarrow> string \<Rightarrow> json \<Rightarrow> error + json" where
  "put_member acc k c =
     (case acc of
        Object ps \<Rightarrow> Inr (Object (set_property ps k c))
      | Array xs \<Rightarrow>
          (case array_index k of
             Some i \<Rightarrow>
               if i < length xs then Inr (Array (xs[i := c]))
               else if i = length xs then Inr (Array (xs @ [c]))
               else Inl NotADocument
           | None \<Rightarrow> Inl NotADocument)
      | Value v \<Rightarrow> Inl TypeError)"

text \<open>\<open>acc[k] || (acc[k] = fresh)\<close>: the container after it, and the value of the expression.\<close>

definition member_or_fresh :: "json \<Rightarrow> string \<Rightarrow> json \<Rightarrow> error + json \<times> json" where
  "member_or_fresh acc k fresh =
     (case get_member acc k of
        Some c \<Rightarrow>
          if truthy_json c then Inr (acc, c)
          else (case put_member acc k fresh of Inl e \<Rightarrow> Inl e | Inr acc' \<Rightarrow> Inr (acc', fresh))
      | None \<Rightarrow> (case put_member acc k fresh of Inl e \<Rightarrow> Inl e | Inr acc' \<Rightarrow> Inr (acc', fresh)))"

text \<open>
  The \<open>keys.reduce\<close> of \<open>unflattenObject\<close>, from segment \<open>j\<close> on, with \<open>acc\<close> the value
  reached so far; the result is \<open>acc\<close> after the assignments made in it and below it (the
  containers are not shared, so the in-place updates are a rebuilt value). The branches
  are the three \<open>return\<close>s of the callback: the next segment contains a quote, the next
  segment is a non-empty string, and otherwise. In the last one the callback returns the
  assigned scalar, and the segments that remain, if any, run on that scalar.
\<close>

fun reduce_keys :: "json \<Rightarrow> string list \<Rightarrow> ValueType \<Rightarrow> error + json" where
  "reduce_keys acc [] v = Inr acc"
| "reduce_keys acc (seg # rest) v =
     (let k = replaceAll seg [sq] [] in
      case rest of
        [] \<Rightarrow> put_member acc k (Value v)
      | nxt # _ \<Rightarrow>
          if includes_str nxt [sq] \<or> nxt \<noteq> [] then
            (case member_or_fresh acc k (if includes_str nxt [sq] then Object [] else Array []) of
               Inl e \<Rightarrow> Inl e
             | Inr (acc', child) \<Rightarrow>
                 (case reduce_keys child rest v of
                    Inl e \<Rightarrow> Inl e
                  | Inr child' \<Rightarrow> put_member acc' k child'))
          else
            (case put_member acc k (Value v) of
               Inl e \<Rightarrow> Inl e
             | Inr acc' \<Rightarrow>
                 (case reduce_keys (Value v) rest v of
                    Inl e \<Rightarrow> Inl e
                  | Inr _ \<Rightarrow> Inr acc')))"

fun unflatten_entries :: "json \<Rightarrow> ValueType object \<Rightarrow> error + json" where
  "unflatten_entries result [] = Inr result"
| "unflatten_entries result (p # data) =
     (case reduce_keys result (split (fst p) ''.'') (snd p) of
        Inl e \<Rightarrow> Inl e
      | Inr result' \<Rightarrow> unflatten_entries result' data)"

text \<open>\<open>JSON.parse(JSON.stringify(base))\<close> is a copy of a document.\<close>

definition JSON_copy :: "json \<Rightarrow> json" where
  "JSON_copy base = base"

definition unflattenObject :: "ValueType object \<Rightarrow> json \<Rightarrow> error + json" where
  "unflattenObject data base = unflatten_entries (JSON_copy base) data"

section \<open>The search filter \<open>filteredRows\<close>\<close>

text \<open>
  \<open>RegExp\<close> belongs to the JavaScript runtime and is a parameter of the filter: applied to
  a pattern it is \<open>None\<close> where \<open>new RegExp(pattern)\<close> raises a \<open>SyntaxError\<close>, and otherwise
  the \<open>test\<close> method of the compiled expression. \<open>rowAiLoading\<close> is the record of in-flight
  flags, a partial map from row keys to booleans.
\<close>

type_synonym regexp = "string \<Rightarrow> (string \<Rightarrow> bool) option"

type_synonym loading = "string \<Rightarrow> bool option"

definition queryWithoutTag :: "string \<Rightarrow> string" where
  "queryWithoutTag searchTerm =
     trim (substring (toLowerCase searchTerm) 0
       (if includes_str searchTerm ''#'' then indexOf searchTerm ''#'' else int (length searchTerm)))"

text \<open>
  The first conjunct of the callback of \<open>some\<close> (App.tsx, lines 306 to 317). Building the
  regular expression comes first in the \<open>#reg\<close> branch, so an invalid pattern raises
  whatever the row is.
\<close>

definition text_predicate :: "regexp \<Rightarrow> TranslationRow \<Rightarrow> string \<Rightarrow> error + bool" where
  "text_predicate RegExp r searchTerm =
     (let q = queryWithoutTag searchTerm in
      if \<not> includes_str searchTerm ''#reg'' then
        Inr (includes_str (toLowerCase (key r)) q \<or>
             \<not> includes_str searchTerm ''#key'' \<and>
               (includes_str (toLowerCase (sourceValue r)) q \<or>
                includes_str (toLowerCase (targetValue r)) q))
      else
        (case RegExp q of
           None \<Rightarrow> Inl SyntaxError
         | Some test \<Rightarrow>
             Inr (test (toLowerCase (key r)) \<or>
                  \<not> includes_str searchTerm ''#key'' \<and>
                    (test (toLowerCase (sourceValue r)) \<or> test (toLowerCase (targetValue r))))))"

text \<open>\<open>/^.*\.\d+$/.test(key)\<close>: the key ends in a dot and a run of digits, on one line.\<close>

definition inarray :: "string \<Rightarrow> bool" where
  "inarray k =
     (takeWhile is_digit (rev k) \<noteq> [] \<and>
      (case dropWhile is_digit (rev k) of
         [] \<Rightarrow> False
       | c # pre \<Rightarrow> c = CHR ''.'' \<and> list_all (\<lambda>x. x \<noteq> CHR 0x0A \<and> x \<noteq> CHR 0x0D) pre))"

text \<open>The second conjunct (App.tsx, lines 318 to 328): one test per tag, each guarded by
  \<open>searchTerm.includes(tag)\<close>.\<close>

definition tag_predicates :: "loading \<Rightarrow> TranslationRow \<Rightarrow> string \<Rightarrow> bool" where
  "tag_predicates rowAiLoading r searchTerm =
     ((\<not> includes_str searchTerm ''#modified'' \<or> targetValue r \<noteq> originalTargetValue r) \<and>
      (\<not> includes_str searchTerm ''#done'' \<or>
         sourceValue r \<noteq> originalTargetValue r \<and> targetValue r = originalTargetValue r) \<and>
      (\<not> includes_str searchTerm ''#undone'' \<or> sourceValue r = targetValue r \<or> targetValue r = []) \<and>
      (\<not> includes_str searchTerm ''#doing'' \<or>
         sourceValue r = targetValue r \<or> targetValue r = [] \<or> targetValue r \<noteq> originalTargetValue r) \<and>
      (\<not> includes_str searchTerm ''#ai'' \<or> aiSuggestion r \<noteq> None \<and> aiSuggestion r \<noteq> Some []) \<and>
      (\<not> includes_str searchTerm ''#noai'' \<or>
         aiSuggestion r = None \<or> aiSuggestion r = Some [] \<or> rowAiLoading (key r) \<noteq> Some True) \<and>
      (\<not> includes_str searchTerm ''#empty'' \<or> targetValue r = []) \<and>
      (\<not> includes_str searchTerm ''#inarray'' \<or> inarray (key r)) \<and>
      (\<not> includes_str searchTerm ''#aifetching'' \<or> rowAiLoading (key r) = Some True))"

definition clause_matches :: "regexp \<Rightarrow> loading \<Rightarrow> TranslationRow \<Rightarrow> string \<Rightarrow> error + bool" where
  "clause_matches RegExp rowAiLoading r searchTerm =
     (case text_predicate RegExp r searchTerm of
        Inl e \<Rightarrow> Inl e
      | Inr t \<Rightarrow> Inr (t \<and> tag_predicates rowAiLoading r searchTerm))"

text \<open>\<open>Array.prototype.some\<close> and \<open>filter\<close> with a callback that may raise.\<close>

fun some :: "('a \<Rightarrow> error + bool) \<Rightarrow> 'a list \<Rightarrow> error + bool" where
  "some f [] = Inr False"
| "some f (x # xs) =
     (case f x of
        Inl e \<Rightarrow> Inl e
      | Inr b \<Rightarrow> if b then Inr True else some f xs)"

fun filter_rows :: "('a \<Rightarrow> error + bool) \<Rightarrow> 'a list \<Rightarrow> error + 'a list" where
  "filter_rows f [] = Inr []"
| "filter_rows f (x # xs) =
     (case f x of
        Inl e \<Rightarrow> Inl e
      | Inr b \<Rightarrow>
          (case filter_rows f xs of
             Inl e \<Rightarrow> Inl e
           | Inr ys \<Rightarrow> Inr (if b then x # ys else ys)))"

definition row_matches :: "regexp \<Rightarrow> loading \<Rightarrow> string \<Rightarrow> TranslationRow \<Rightarrow> error + bool" where
  "row_matches RegExp rowAiLoading searchTerms r =
     some (clause_matches RegExp rowAiLoading r) (split (toLowerCase searchTerms) ''||'')"

definition filteredRows :: "regexp \<Rightarrow> loading \<Rightarrow> TranslationRow list \<Rightarrow> string \<Rightarrow> error + TranslationRow list" where
  "filteredRows RegExp rowAiLoading rows searchTerms =
     filter_rows (row_matches RegExp rowAiLoading searchTerms) rows"


text \<open>
  A stand-in for the runtime's \<open>RegExp\<close> in the examples. A pattern of lower-case letters
  and digits compiles to the search for that text. Every other pattern is rejected; the
  examples use only \<open>(\<close> of those, an unterminated group, which \<open>new RegExp\<close> rejects.
\<close>

definition sample_RegExp :: regexp where
  "sample_RegExp pattern =
     (if list_all (\<lambda>c. c \<in> set ''abcdefghijklmnopqrstuvwxyz0123456789'') pattern
      then Some (\<lambda>s. includes_str s pattern) else None)"

section \<open>Bulk suggestions: \<open>getTranslationSuggestions\<close> and \<open>handleSuggestAll\<close>\<close>

text \<open>
  What one call of \<open>getTranslationSuggestions\<close> meets: the code before its \<open>try\<close> raises
  (lines 12 to 21: the client is constructed, \<open>model.startsWith\<close> is called, the schema is
  built); or \<open>ai.models.generateContent\<close> raises; or it returns a text that \<open>JSON.parse\<close>
  rejects (a response without text is such a case); or the text parses to \<open>null\<close>; or it
  parses to an object, given by its properties in \<open>Object.keys\<close> order. The values of the
  object are strings: an answer with values of another type is outside the embedding, and
  a text that parses to a number, a boolean, a string or an array acts as the object of
  its own \<open>Object.keys\<close>. The provider is a parameter: a function of the number of calls
  made before and of the \<open>{key, value}\<close> pairs sent.
\<close>

datatype response = ClientRaises | Raises | Unparsable | ParsedNull | Parsed "string object"

type_synonym provider = "nat \<Rightarrow> (string \<times> string) list \<Rightarrow> response"

text \<open>
  \<open>getTranslationSuggestions\<close>: an exception before the \<open>try\<close> rejects the call (written
  \<open>TypeError\<close>, as it is for a project without a model); both \<open>catch\<close> blocks return the
  empty object; otherwise the parsed value is returned as it is, \<open>None\<close> for \<open>null\<close>.
\<close>

definition getTranslationSuggestions :: "((string \<times> string) list \<Rightarrow> response) \<Rightarrow> (string \<times> string) list \<Rightarrow> error + string object option" where
  "getTranslationSuggestions generateContent texts =
     (case generateContent texts of
        ClientRaises \<Rightarrow> Inl TypeError
      | Raises \<Rightarrow> Inr (Some [])
      | Unparsable \<Rightarrow> Inr (Some [])
      | ParsedNull \<Rightarrow> Inr None
      | Parsed suggestions \<Rightarrow> Inr (Some suggestions))"

text \<open>
  \<open>newRows[newRows.findIndex(r => r.key === key)].aiSuggestion = suggestion\<close>, when the
  index is not \<open>-1\<close>: the first row under the key is written.
\<close>

fun set_aiSuggestion :: "TranslationRow list \<Rightarrow> string \<Rightarrow> string \<Rightarrow> TranslationRow list" where
  "set_aiSuggestion [] k a = []"
| "set_aiSuggestion (r # rs) k a =
     (if key r = k then r\<lparr>aiSuggestion := Some a\<rparr> # rs else r # set_aiSuggestion rs k a)"

text \<open>\<open>Object.keys(suggestions).forEach\<close>: every property of the answer, in order.\<close>

definition apply_suggestions :: "TranslationRow list \<Rightarrow> string object \<Rightarrow> TranslationRow list" where
  "apply_suggestions rows suggestions =
     foldl (\<lambda>rs p. set_aiSuggestion rs (fst p) (snd p)) rows suggestions"

text \<open>
  The state of the \<open>for\<close> loop: the local \<open>newRowLoading\<close>, the rows of \<open>newRows\<close>, the
  chunks handed to \<open>getTranslationSuggestions\<close> so far (kept to state what the loop asks
  for), and the exception that ended the loop, if one did.
\<close>

record suggest_state =
  newRowLoading :: loading
  rows :: "TranslationRow list"
  requests :: "(string \<times> string) list list"
  raised :: "error option"

text \<open>\<open>chunk.map(r => ({ key: r.key, value: r.sourceValue }))\<close>\<close>

definition sourceTexts :: "TranslationRow list \<Rightarrow> (string \<times> string) list" where
  "sourceTexts chunk = map (\<lambda>r. (key r, sourceValue r)) chunk"

definition mark :: "bool \<Rightarrow> loading \<Rightarrow> TranslationRow list \<Rightarrow> loading" where
  "mark b l rs = foldl (\<lambda>m r. m(key r \<mapsto> b)) l rs"

text \<open>
  The loop body for the chunk at \<open>i\<close>, then the loop from \<open>i + chunkSize\<close>. When the awaited
  call rejects, the body stops there (line 225). When it returns \<open>null\<close>, the flags of the
  chunk are cleared in \<open>newRowLoading\<close> (line 232) and \<open>Object.keys(suggestions)\<close> raises a
  \<open>TypeError\<close> (line 234). Either way the rest of the loop is skipped. The chunk size is
  positive (\<open>settings.suggestionChunkSize || 10\<close>), so the guard on it never fires.
\<close>

function suggest_loop :: "provider \<Rightarrow> nat \<Rightarrow> TranslationRow list \<Rightarrow> nat \<Rightarrow> suggest_state \<Rightarrow> suggest_state" where
  "suggest_loop generateContent chunkSize updatedRows i st =
     (if i < length updatedRows \<and> 0 < chunkSize then
        (let chunk = take chunkSize (drop i updatedRows) in
         case getTranslationSuggestions (generateContent (length (requests st))) (sourceTexts chunk) of
           Inl e \<Rightarrow>
             st\<lparr> requests := requests st @ [sourceTexts chunk], raised := Some e \<rparr>
         | Inr None \<Rightarrow>
             st\<lparr> newRowLoading := mark False (newRowLoading st) chunk,
                 requests := requests st @ [sourceTexts chunk],
                 raised := Some TypeError \<rparr>
         | Inr (Some suggestions) \<Rightarrow>
             suggest_loop generateContent chunkSize updatedRows (i + chunkSize)
               (st\<lparr> newRowLoading := mark False (newRowLoading st) chunk,
                    rows := apply_suggestions (rows st) suggestions,
                    requests := requests st @ [sourceTexts chunk] \<rparr>))
      else st)"
  by pat_completeness auto
termination
  by (relation "measure (\<lambda>(g, c, u, i, st). length u - i)") auto

declare suggest_loop.simps [simp del]

text \<open>The rows \<open>handleSuggestAll\<close> selects from \<open>filteredRows\<close> (App.tsx, line 212).\<close>

definition updatedRows :: "bool \<Rightarrow> loading \<Rightarrow> TranslationRow list \<Rightarrow> TranslationRow list" where
  "updatedRows replaceExistAISuggestions rowAiLoading filtered =
     filter (\<lambda>r. (replaceExistAISuggestions \<or> aiSuggestion r = None \<or> aiSuggestion r = Some []) \<and>
                 rowAiLoading (key r) \<noteq> Some True) filtered"

text \<open>
  The application state \<open>handleSuggestAll\<close> reads and writes: the in-flight flags, the rows
  of the active project, the chunks handed to \<open>getTranslationSuggestions\<close>, and the
  exception the \<open>catch\<close> block of the last run alerted, if any.
\<close>

record app_state =
  rowAiLoading :: loading
  project_rows :: "TranslationRow list"
  provider_requests :: "(string \<times> string) list list"
  caught :: "error option"

text \<open>
  \<open>handleSuggestAll\<close> for an active project. The two early returns leave the state as it
  is. Otherwise the candidates are marked (line 217) and the loop runs. When the loop
  ends normally, the flags are set a second time (line 242), from the loop's
  \<open>newRowLoading\<close> laid over the \<open>rowAiLoading\<close> the handler started with. When an exception
  ended the loop, the \<open>catch\<close> block alerts it and nothing else runs (the \<open>finally\<close> block is
  empty): the flags stay as line 217 set them. The suggestions of the earlier chunks were
  written into the row objects themselves (\<open>newRows\<close> is a shallow copy), so the rows
  hold them in both cases. The preview map \<open>rowAiTemp\<close> is display only and left out.
\<close>

definition handleSuggestAll :: "string \<Rightarrow> nat \<Rightarrow> bool \<Rightarrow> TranslationRow list \<Rightarrow> provider \<Rightarrow> app_state \<Rightarrow> app_state" where
  "handleSuggestAll geminiApiKey suggestionChunkSize replaceExistAISuggestions filtered generateContent s =
     (if project_rows s = [] then s
      else if geminiApiKey = [] then s
      else
        (let chunkSize = (if suggestionChunkSize = 0 then 10 else suggestionChunkSize);
             candidates = updatedRows replaceExistAISuggestions (rowAiLoading s) filtered;
             marked = mark True (rowAiLoading s) candidates;
             st = suggest_loop generateContent chunkSize candidates 0
                    \<lparr> newRowLoading = marked, rows = project_rows s, requests = [], raised = None \<rparr>
         in case raised st of
              None \<Rightarrow>
                \<lparr> rowAiLoading = rowAiLoading s ++ newRowLoading st,
                  project_rows = rows st,
                  provider_requests = provider_requests s @ requests st,
                  caught = None \<rparr>
            | Some e \<Rightarrow>
                \<lparr> rowAiLoading = rowAiLoading s ++ marked,
                  project_rows = rows st,
                  provider_requests = provider_requests s @ requests st,
                  caught = Some e \<rparr>))"

section \<open>\<open>handlePushToGitHub\<close>\<close>



section \<open>Notions used in the statements\<close>

text \<open>
  A position in a document is a list of segments: a member of an object by its key, an
  element of an array by its index. \<open>leaves\<close> lists the scalar leaves of a document with
  their positions, in the order of the traversal.
\<close>

datatype segment = Member string | Index nat

function leaves :: "json \<Rightarrow> (segment list \<times> ValueType) list" where
  "leaves (Value v) = [([], v)]"
| "leaves (Object ps) =
     concat (map (\<lambda>p. map (\<lambda>q. (Member (fst p) # fst q, snd q)) (leaves (snd p))) ps)"
| "leaves (Array xs) =
     concat (map (\<lambda>p. map (\<lambda>q. (Index (fst p) # fst q, snd q)) (leaves (snd p))) (zip [0 ..< length xs] xs))"
  by pat_completeness auto
termination
proof (relation "measure size")
  show "wf (measure (size :: json \<Rightarrow> nat))"
    by simp
next
  fix ps :: "(string \<times> json) list" and p
  assume "p \<in> set ps"
  then have "size (snd p) < Suc (size_list (size_prod (\<lambda>_. 0) size) ps)"
    by (induction ps) (auto simp: less_Suc_eq_le)
  then show "(snd p, Object ps) \<in> measure size"
    by simp
next
  fix xs :: "json list" and p
  assume "p \<in> set (zip [0 ..< length xs] xs)"
  then have "snd p \<in> set xs"
    by (metis prod.collapse set_zip_rightD)
  then have "size (snd p) < Suc (size_list size xs)"
    by (induction xs) (auto simp: less_Suc_eq_le)
  then show "(snd p, Array xs) \<in> measure size"
    by simp
qed

text \<open>
  All the object keys that occur in a document, and the documents \<open>JSON.parse\<close> can
  return: the keys of an object are distinct, an array has fewer than \<open>2^32\<close> elements.
\<close>

fun all_keys :: "json \<Rightarrow> string list" where
  "all_keys (Value v) = []"
| "all_keys (Object ps) = concat (map (\<lambda>p. fst p # all_keys (snd p)) ps)"
| "all_keys (Array xs) = concat (map all_keys xs)"

fun well_formed :: "json \<Rightarrow> bool" where
  "well_formed (Value v) = True"
| "well_formed (Object ps) = (distinct (map fst ps) \<and> list_all (\<lambda>p. well_formed (snd p)) ps)"
| "well_formed (Array xs) = (length xs < 4294967296 \<and> list_all well_formed xs)"

definition is_container :: "json \<Rightarrow> bool" where
  "is_container d = (case d of Value v \<Rightarrow> False | _ \<Rightarrow> True)"

fun child :: "json \<Rightarrow> segment \<Rightarrow> json option" where
  "child (Object ps) (Member k) = map_of ps k"
| "child (Array xs) (Index i) = (if i < length xs then Some (xs ! i) else None)"
| "child d s = None"

text \<open>
  The text of a segment: in the node path of walkjs without the outer brackets
  (\<open>path_text\<close>), in a flat key as the code writes it, with single quotes around an object
  key (\<open>segment_text\<close>), and literally, with nothing added (\<open>literal_text\<close>). \<open>join\<close>
  puts a separator between the texts.
\<close>

fun path_text :: "segment \<Rightarrow> string" where
  "path_text (Member k) = dq # k @ [dq]"
| "path_text (Index i) = show_nat i"

fun raw_segment :: "segment \<Rightarrow> string" where
  "raw_segment (Member k) = ''['' @ [dq] @ k @ [dq] @ '']''"
| "raw_segment (Index i) = ''['' @ show_nat i @ '']''"

fun segment_text :: "segment \<Rightarrow> string" where
  "segment_text (Member k) = sq # k @ [sq]"
| "segment_text (Index i) = show_nat i"

fun literal_text :: "segment \<Rightarrow> string" where
  "literal_text (Member k) = k"
| "literal_text (Index i) = show_nat i"

fun join :: "string list \<Rightarrow> string \<Rightarrow> string" where
  "join [] sep = []"
| "join [s] sep = s"
| "join (s # t # r) sep = s @ sep @ join (t # r) sep"

definition dotted_path :: "segment list \<Rightarrow> string" where
  "dotted_path p = join (map segment_text p) ''.''"

definition literal_path :: "segment list \<Rightarrow> string" where
  "literal_path p = join (map literal_text p) ''.''"

text \<open>
  The object keys the key format leaves alone (no double quote, no \<open>][\<close>), and those
  that also survive the way back (no single quote and no dot either).
\<close>

definition plain_key :: "string \<Rightarrow> bool" where
  "plain_key k = (dq \<notin> set k \<and> \<not> includes_str k '']['')"

definition safe_key :: "string \<Rightarrow> bool" where
  "safe_key k = (plain_key k \<and> sq \<notin> set k \<and> CHR ''.'' \<notin> set k)"

text \<open>
  The object keys whose quoting in a flat key can be read back: no double quote, no \<open>][\<close>
  and no single quote, dots allowed.
\<close>

definition unquoted_key :: "string \<Rightarrow> bool" where
  "unquoted_key k = (plain_key k \<and> sq \<notin> set k)"

text \<open>
  A leaf that is a scalar element of a root array, its index, and the leaves of a
  document in the order in which the keys of its flattening are enumerated: the scalar
  elements of a root array first, then the other leaves, each group in traversal order.
\<close>

fun root_element :: "segment list \<times> ValueType \<Rightarrow> bool" where
  "root_element ([Index i], v) = True"
| "root_element (p, v) = False"

definition first_index :: "segment list \<times> ValueType \<Rightarrow> nat" where
  "first_index q = (case fst q of Index i # r \<Rightarrow> i | _ \<Rightarrow> 0)"

definition enumeration :: "json \<Rightarrow> (segment list \<times> ValueType) list" where
  "enumeration d = filter root_element (leaves d) @ filter (\<lambda>q. \<not> root_element q) (leaves d)"

text \<open>The flat source holds a string under the key; the leaf holds a string.\<close>

definition is_string :: "ValueType option \<Rightarrow> bool" where
  "is_string v = (case v of Some (Str s) \<Rightarrow> True | _ \<Rightarrow> False)"

definition string_leaf :: "segment list \<times> ValueType \<Rightarrow> bool" where
  "string_leaf q = is_string (Some (snd q))"

text \<open>The partition of a list into consecutive chunks of at most \<open>n\<close> elements.\<close>

function chunks :: "nat \<Rightarrow> 'a list \<Rightarrow> 'a list list" where
  "chunks n xs = (if n = 0 \<or> xs = [] then [] else take n xs # chunks n (drop n xs))"
  by pat_completeness auto
termination
  by (relation "measure (\<lambda>(n, xs). length xs)") auto

declare chunks.simps [simp del]

text \<open>
  What the call numbered \<open>j\<close> does to the rows when it is sent the chunk \<open>c\<close>: the
  suggestions \<open>getTranslationSuggestions\<close> returns for it, if it returns an object, are
  written. A call aborts the run when it is rejected or returns \<open>null\<close>.
\<close>

definition chunk_step :: "provider \<Rightarrow> TranslationRow list \<Rightarrow> nat \<times> TranslationRow list \<Rightarrow> TranslationRow list" where
  "chunk_step generateContent rs jc =
     (case getTranslationSuggestions (generateContent (fst jc)) (sourceTexts (snd jc)) of
        Inr (Some suggestions) \<Rightarrow> apply_suggestions rs suggestions
      | _ \<Rightarrow> rs)"

definition aborts :: "response \<Rightarrow> bool" where
  "aborts r = (r = ClientRaises \<or> r = ParsedNull)"

text \<open>The loop of \<open>handleSuggestAll\<close> as a recursion over the list of its chunks.\<close>

fun run_chunks :: "provider \<Rightarrow> TranslationRow list list \<Rightarrow> suggest_state \<Rightarrow> suggest_state" where
  "run_chunks g [] st = st"
| "run_chunks g (chunk # cs) st =
     (case getTranslationSuggestions (g (length (requests st))) (sourceTexts chunk) of
        Inl e \<Rightarrow>
          st\<lparr> requests := requests st @ [sourceTexts chunk], raised := Some e \<rparr>
      | Inr None \<Rightarrow>
          st\<lparr> newRowLoading := mark False (newRowLoading st) chunk,
              requests := requests st @ [sourceTexts chunk],
              raised := Some TypeError \<rparr>
      | Inr (Some suggestions) \<Rightarrow>
          run_chunks g cs
            (st\<lparr> newRowLoading := mark False (newRowLoading st) chunk,
                 rows := apply_suggestions (rows st) suggestions,
                 requests := requests st @ [sourceTexts chunk] \<rparr>))"


section \<open>Sample data\<close>

text \<open>
  A source and a target locale file, and a row table from an earlier fetch: the string at
  \<open>a.b\<close> was edited after it (\<open>Salut\<close> against the fetched \<open>Bonjour\<close>), and the key
  \<open>gone\<close> is no longer in the source.
\<close>

definition sample_source :: json where
  "sample_source =
     Object [(''a'', Object [(''b'', Value (Str ''Hello''))]),
             (''n'', Value (Num 3)),
             (''c'', Value (Str ''New''))]"

definition sample_target :: json where
  "sample_target =
     Object [(''a'', Object [(''b'', Value (Str ''Bonjour''))]), (''c'', Value (Str []))]"

definition key_a_b :: string where
  "key_a_b = [sq] @ ''a'' @ [sq] @ ''.'' @ [sq] @ ''b'' @ [sq]"

definition key_c :: string where
  "key_c = [sq] @ ''c'' @ [sq]"

definition key_gone :: string where
  "key_gone = [sq] @ ''gone'' @ [sq]"

definition sample_rows :: "TranslationRow list" where
  "sample_rows =
     [\<lparr> key = key_a_b, sourceValue = ''Hello'', targetValue = ''Salut'',
         originalTargetValue = ''Bonjour'', aiSuggestion = None \<rparr>,
      \<lparr> key = key_gone, sourceValue = ''Bye'', targetValue = ''Adieu'',
         originalTargetValue = ''Adieu'', aiSuggestion = Some ''Ciao'' \<rparr>]"

text \<open>The document of the example path, and a document with a dot in a key.\<close>

definition auth_doc :: json where
  "auth_doc =
     Object [(''auth'', Object [(''errors'', Array [Object [(''message'', Value (Str ''Required''))]])])]"

definition auth_path :: "segment list" where
  "auth_path = [Member ''auth'', Member ''errors'', Index 0, Member ''message'']"

definition dotted_doc :: json where
  "dotted_doc = Object [(''a.b'', Value (Str ''x''))]"

text \<open>
  A document whose root is an array, with an object before a string; and a document
  with single quotes in a key.
\<close>

definition array_doc :: json where
  "array_doc = Array [Object [(''a'', Value (Str ''p''))], Value (Str ''q'')]"

definition quoted_doc :: json where
  "quoted_doc =
     Object [(''a'' @ [sq] @ ''.'' @ [sq] @ ''b'', Value (Str ''x'')),
             (''a'', Object [(''b'', Value (Str ''y''))])]"

text \<open>
  The table after the fetch, a provider whose first call raises and whose later calls
  answer every text sent, a provider whose answer always parses to \<open>null\<close>, a provider
  that answers its first call and whose later answers parse to \<open>null\<close>, and an application
  state with no request in flight.
\<close>

definition fetched_rows :: "TranslationRow list" where
  "fetched_rows =
     [\<lparr> key = key_a_b, sourceValue = ''Hello'', targetValue = ''Salut'',
         originalTargetValue = ''Bonjour'', aiSuggestion = Some [] \<rparr>,
      \<lparr> key = key_c, sourceValue = ''New'', targetValue = ''New'',
         originalTargetValue = ''New'', aiSuggestion = Some [] \<rparr>]"

definition failing_provider :: provider where
  "failing_provider n texts =
     (if n = 0 then Raises else Parsed (map (\<lambda>p. (fst p, ''fr '' @ snd p)) texts))"

definition null_provider :: provider where
  "null_provider n texts = ParsedNull"

definition partial_provider :: provider where
  "partial_provider n texts =
     (if n = 0 then Parsed (map (\<lambda>p. (fst p, ''fr '' @ snd p)) texts) else ParsedNull)"

definition idle :: app_state where
  "idle =
     \<lparr> rowAiLoading = Map.empty, project_rows = fetched_rows, provider_requests = [],
       caught = None \<rparr>"

section \<open>Properties of the re-fetch merge\<close>

lemma key_new_row: "key (new_row rs T k s) = k"
  by (simp add: new_row_def Let_def)

lemma is_string_source: "is_string (get_property S k) \<longleftrightarrow> source_string S k \<noteq> None"
  by (auto simp: is_string_def source_string_def split: option.splits ValueType.splits)

lemma newRows_map:
  "newRows rs S T =
     map (\<lambda>k. new_row rs T k (the (source_string S k)))
       (filter (\<lambda>k. is_string (get_property S k)) (keys S))"
  unfolding newRows_def map_filter_def is_string_source
  by (auto intro!: map_cong)

lemma keys_newRows:
  "map key (newRows rs S T) = filter (\<lambda>k. is_string (get_property S k)) (keys S)"
  by (simp add: newRows_map key_new_row cong: map_cong)

lemma is_string_in_keys: "is_string (get_property S k) \<Longrightarrow> k \<in> set (keys S)"
  by (auto simp: is_string_def get_property_def keys_def split: option.splits dest: map_of_SomeD
      intro: rev_image_eqI)

lemma find_map_key:
  "k \<in> set ks \<Longrightarrow> (\<And>j. key (f j) = j) \<Longrightarrow> find (\<lambda>r. key r = k) (map f ks) = Some (f k)"
  by (induction ks) auto

lemma row_for_newRows:
  assumes "is_string (get_property S k)"
  shows "row_for (newRows rs S T) k = Some (new_row rs T k (the (source_string S k)))"
  unfolding row_for_def newRows_map
  using assms by (intro find_map_key) (auto simp: key_new_row is_string_in_keys)

lemma new_row_again:
  "row_for rs' k = Some (new_row rs T k s) \<Longrightarrow> new_row rs' T k s = new_row rs T k s"
  by (auto simp: new_row_def Let_def split: option.splits)

lemma row_for_distinct:
  "distinct (map key rs) \<Longrightarrow> r \<in> set rs \<Longrightarrow> row_for rs (key r) = Some r"
  unfolding row_for_def by (induction rs) auto

lemma row_for_None: "k \<notin> key ` set rs \<Longrightarrow> row_for rs k = None"
  unfolding row_for_def by (induction rs) auto

lemma in_newRows:
  "r' \<in> set (newRows rs S T) \<Longrightarrow>
   is_string (get_property S (key r')) \<and> r' = new_row rs T (key r') (the (source_string S (key r')))"
  by (auto simp: newRows_map key_new_row)

lemma new_row_in_newRows:
  "is_string (get_property S k) \<Longrightarrow> new_row rs T k (the (source_string S k)) \<in> set (newRows rs S T)"
  by (auto simp: newRows_map is_string_in_keys)

lemma sample_newRows:
  "newRows sample_rows (flattenObject sample_source) (flattenObject sample_target) = fetched_rows"
  by code_simp

text \<open>
  C2. A row of the old table whose target was edited away from its original target keeps
  that target text in the new table, whatever the fetched target holds, as long as the
  source still has a string under the row's key. A row that was not edited, and a key
  the old table does not have, get the newly computed original target as their target:
  the text of the fetched target's value when that value is truthy, the source string
  otherwise. The keys of the old table are distinct, as the table's invariant has it;
  the statement covers every row of the new table under the key, and there is one.
\<close>

theorem newRows_targetValue:
  assumes "distinct (map key rs)" and "get_property S k = Some (Str s)"
  shows "(\<exists>r' \<in> set (newRows rs S T). key r' = k) \<and>
         (\<forall>r' \<in> set (newRows rs S T). key r' = k \<longrightarrow>
            originalTargetValue r' = target_or_source T k s \<and>
            (\<forall>r \<in> set rs. key r = k \<and> targetValue r \<noteq> originalTargetValue r \<longrightarrow>
               targetValue r' = targetValue r) \<and>
            (\<forall>r \<in> set rs. key r = k \<and> targetValue r = originalTargetValue r \<longrightarrow>
               targetValue r' = originalTargetValue r') \<and>
            (k \<notin> key ` set rs \<longrightarrow> targetValue r' = originalTargetValue r'))"
proof (intro conjI ballI impI)
  have str: "is_string (get_property S k)" "the (source_string S k) = s"
    using assms(2) by (simp_all add: is_string_def source_string_def)
  show "\<exists>r' \<in> set (newRows rs S T). key r' = k"
    using new_row_in_newRows[OF str(1)] key_new_row by blast
  fix r' assume r': "r' \<in> set (newRows rs S T)" "key r' = k"
  then have eq: "r' = new_row rs T k s"
    using in_newRows str(2) by blast
  show "originalTargetValue r' = target_or_source T k s"
    unfolding eq by (simp add: new_row_def Let_def)
  show "targetValue r' = originalTargetValue r'" if "k \<notin> key ` set rs"
    unfolding eq using row_for_None[OF that] by (simp add: new_row_def)
  fix r assume r: "r \<in> set rs"
  show "targetValue r' = targetValue r" if "key r = k \<and> targetValue r \<noteq> originalTargetValue r"
    unfolding eq using row_for_distinct[OF assms(1) r] that by (auto simp: new_row_def)
  show "targetValue r' = originalTargetValue r'" if "key r = k \<and> targetValue r = originalTargetValue r"
    unfolding eq using row_for_distinct[OF assms(1) r] that by (auto simp: new_row_def)
qed

theorem newRows_targetValue_witness:
  "distinct (map key sample_rows) \<and>
   get_property (flattenObject sample_source) key_a_b = Some (Str ''Hello'') \<and>
   get_property (flattenObject sample_target) key_a_b = Some (Str ''Bonjour'') \<and>
   hd sample_rows \<in> set sample_rows \<and>
   key (hd sample_rows) = key_a_b \<and>
   targetValue (hd sample_rows) \<noteq> originalTargetValue (hd sample_rows) \<and>
   (\<exists>r'. r' \<in> set (newRows sample_rows (flattenObject sample_source) (flattenObject sample_target)) \<and>
      key r' = key_a_b \<and> targetValue r' = ''Salut'' \<and> originalTargetValue r' = ''Bonjour'')"
proof -
  let ?S = "flattenObject sample_source" and ?T = "flattenObject sample_target"
  have d: "distinct (map key sample_rows)"
    by code_simp
  have s: "get_property ?S key_a_b = Some (Str ''Hello'')"
    "get_property ?T key_a_b = Some (Str ''Bonjour'')"
    by code_simp+
  have h: "hd sample_rows \<in> set sample_rows" "key (hd sample_rows) = key_a_b"
    "targetValue (hd sample_rows) \<noteq> originalTargetValue (hd sample_rows)"
    "targetValue (hd sample_rows) = ''Salut''"
    by code_simp+
  have t: "target_or_source ?T key_a_b ''Hello'' = ''Bonjour''"
    by code_simp
  from newRows_targetValue[OF d s(1), of ?T]
  obtain r' where r': "r' \<in> set (newRows sample_rows ?S ?T)" "key r' = key_a_b"
    and all: "\<forall>r' \<in> set (newRows sample_rows ?S ?T).
       key r' = key_a_b \<longrightarrow>
         originalTargetValue r' = target_or_source ?T key_a_b ''Hello'' \<and>
         (\<forall>r \<in> set sample_rows. key r = key_a_b \<and> targetValue r \<noteq> originalTargetValue r \<longrightarrow>
            targetValue r' = targetValue r) \<and>
         (\<forall>r \<in> set sample_rows. key r = key_a_b \<and> targetValue r = originalTargetValue r \<longrightarrow>
            targetValue r' = originalTargetValue r') \<and>
         (key_a_b \<notin> key ` set sample_rows \<longrightarrow> targetValue r' = originalTargetValue r')"
    by blast
  from all r' have "originalTargetValue r' = ''Bonjour''"
    using t by simp
  moreover from all r' h have "targetValue r' = ''Salut''"
    by metis
  ultimately show ?thesis
    using d s h r' by blast
qed

lemma keys_insert_index: "set (keys (insert_index i k v obj)) = insert k (set (keys obj))"
  by (induction obj) (auto simp: keys_def split: option.splits)

lemma distinct_insert_index:
  "distinct (keys obj) \<Longrightarrow> k \<notin> set (keys obj) \<Longrightarrow> distinct (keys (insert_index i k v obj))"
proof (induction obj)
  case Nil
  then show ?case by (simp add: keys_def)
next
  case (Cons p obj)
  then have "fst p \<notin> set (keys (insert_index i k v obj))"
    unfolding keys_insert_index by (auto simp: keys_def)
  with Cons show ?case
    by (auto simp: keys_def split: option.splits)
qed

lemma distinct_set_property:
  "distinct (keys obj) \<Longrightarrow> distinct (keys (set_property obj k v))"
proof (cases "k \<in> fst ` set obj")
  case True
  have "keys (map (\<lambda>p. if fst p = k then (k, v) else p) obj) = keys obj"
    unfolding keys_def by (induction obj) auto
  moreover assume "distinct (keys obj)"
  ultimately show ?thesis
    using True by (simp add: set_property_def)
next
  case False
  moreover assume "distinct (keys obj)"
  ultimately show ?thesis
    using distinct_insert_index[of obj k _ v]
    by (auto simp: set_property_def keys_def split: option.splits)
qed

lemma distinct_foldl_set_property:
  "distinct (keys acc) \<Longrightarrow> distinct (keys (foldl (\<lambda>obj q. set_property obj (f q) (g q)) acc qs))"
  by (induction qs arbitrary: acc) (simp_all add: distinct_set_property)

lemma distinct_keys_flattenObject: "distinct (keys (flattenObject d))"
  unfolding flattenObject_def by (rule distinct_foldl_set_property) (simp add: keys_def)

text \<open>
  C9. Merging a second time against the same flattened source and target gives the table
  of the first merge again: the same rows in the same order, every field included.
\<close>

theorem newRows_idempotent:
  "newRows (newRows rs S T) S T = newRows rs S T"
proof -
  have "new_row (newRows rs S T) T k (the (source_string S k)) = new_row rs T k (the (source_string S k))"
    if "k \<in> set (filter (\<lambda>k. is_string (get_property S k)) (keys S))" for k
    using that by (intro new_row_again row_for_newRows) auto
  then show ?thesis
    unfolding newRows_map[of "newRows rs S T"] unfolding newRows_map[of rs]
    by (intro map_cong refl)
qed

theorem newRows_idempotent_witness:
  "newRows (newRows sample_rows (flattenObject sample_source) (flattenObject sample_target))
       (flattenObject sample_source) (flattenObject sample_target) = fetched_rows"
  using newRows_idempotent[of sample_rows "flattenObject sample_source" "flattenObject sample_target"]
  by (simp only: sample_newRows)

section \<open>Properties of the push\<close>






section \<open>Properties of the search filter\<close>

lemma text_predicate_invalid:
  "includes_str c ''#reg'' \<Longrightarrow> RegExp (queryWithoutTag c) = None \<Longrightarrow>
   text_predicate RegExp r c = Inl SyntaxError"
  by (simp add: text_predicate_def)

lemma clause_matches_invalid:
  "includes_str c ''#reg'' \<Longrightarrow> RegExp (queryWithoutTag c) = None \<Longrightarrow>
   clause_matches RegExp l r c = Inl SyntaxError"
  by (simp add: clause_matches_def text_predicate_invalid)

lemma some_raises:
  "\<forall>c \<in> set before. f c = Inr False \<Longrightarrow> f c = Inl e \<Longrightarrow> some f (before @ c # after) = Inl e"
  by (induction before) auto

lemma clause_matches_error: "clause_matches RegExp l r c = Inl e \<Longrightarrow> e = SyntaxError"
  by (auto simp: clause_matches_def text_predicate_def Let_def split: sum.splits if_splits option.splits)

lemma some_error: "some f cs = Inl e \<Longrightarrow> \<exists>c \<in> set cs. f c = Inl e"
  by (induction cs) (auto split: sum.splits if_splits)

lemma row_matches_error: "row_matches RegExp l q r = Inl e \<Longrightarrow> e = SyntaxError"
  unfolding row_matches_def by (blast dest: some_error clause_matches_error)

lemma filter_rows_raises:
  "r \<in> set rs \<Longrightarrow> f r = Inl e \<Longrightarrow> \<exists>e'. filter_rows f rs = Inl e'"
  by (induction rs) (auto split: sum.splits)

lemma filter_rows_error: "filter_rows f rs = Inl e \<Longrightarrow> \<exists>r \<in> set rs. f r = Inl e"
  by (induction rs) (auto split: sum.splits)

lemma filteredRows_error: "filteredRows RegExp l rs q = Inl e \<Longrightarrow> e = SyntaxError"
  unfolding filteredRows_def by (blast dest: filter_rows_error row_matches_error)

text \<open>
  C3, as the claim states it, fails: the query \<open>(#reg||hello\<close> raises a \<open>SyntaxError\<close> out
  of the filter, although its second clause alone matches a row of the table.
\<close>

theorem invalid_reg_clause_counterexample:
  "filteredRows sample_RegExp Map.empty sample_rows ''(#reg||hello'' = Inl SyntaxError \<and>
   filteredRows sample_RegExp Map.empty sample_rows ''hello'' = Inr [hd sample_rows]"
  by code_simp

text \<open>
  C3, amended. A clause with the tag \<open>#reg\<close> whose pattern \<open>new RegExp\<close> rejects raises a
  \<open>SyntaxError\<close>, and nothing absorbs it: for a row that none of the earlier clauses of
  the query matched, the evaluation of the query raises at that clause, the later
  clauses are not evaluated, and the filter over a table that holds such a row raises
  as a whole.
\<close>

theorem invalid_reg_clause_raises:
  assumes "split (toLowerCase searchTerms) ''||'' = before @ clause # after"
    and "includes_str clause ''#reg''"
    and "RegExp (queryWithoutTag clause) = None"
    and "\<forall>c \<in> set before. clause_matches RegExp l r c = Inr False"
    and "r \<in> set rs"
  shows "clause_matches RegExp l r clause = Inl SyntaxError \<and>
         row_matches RegExp l searchTerms r = Inl SyntaxError \<and>
         filteredRows RegExp l rs searchTerms = Inl SyntaxError"
proof -
  have c: "clause_matches RegExp l r clause = Inl SyntaxError"
    using assms(2,3) by (rule clause_matches_invalid)
  have m: "row_matches RegExp l searchTerms r = Inl SyntaxError"
    unfolding row_matches_def assms(1) using assms(4) c by (rule some_raises)
  obtain e where "filteredRows RegExp l rs searchTerms = Inl e"
    unfolding filteredRows_def
    using filter_rows_raises[of r rs "row_matches RegExp l searchTerms" SyntaxError] assms(5) m
    by blast
  then have "filteredRows RegExp l rs searchTerms = Inl SyntaxError"
    using filteredRows_error by blast
  with c m show ?thesis by simp
qed

theorem invalid_reg_clause_raises_witness:
  "split (toLowerCase ''gone||(#reg||hello'') ''||'' = [''gone''] @ ''(#reg'' # [''hello''] \<and>
   includes_str ''(#reg'' ''#reg'' \<and>
   sample_RegExp (queryWithoutTag ''(#reg'') = None \<and>
   clause_matches sample_RegExp Map.empty (hd sample_rows) ''gone'' = Inr False \<and>
   clause_matches sample_RegExp Map.empty (hd sample_rows) ''hello'' = Inr True \<and>
   hd sample_rows \<in> set sample_rows \<and>
   row_matches sample_RegExp Map.empty ''gone||(#reg||hello'' (hd sample_rows) = Inl SyntaxError \<and>
   filteredRows sample_RegExp Map.empty sample_rows ''gone||(#reg||hello'' = Inl SyntaxError"
proof -
  have a: "split (toLowerCase ''gone||(#reg||hello'') ''||'' = [''gone''] @ ''(#reg'' # [''hello'']"
    by code_simp
  have b: "includes_str ''(#reg'' ''#reg''"
    by code_simp
  have c: "sample_RegExp (queryWithoutTag ''(#reg'') = None"
    by code_simp
  have d: "clause_matches sample_RegExp Map.empty (hd sample_rows) ''gone'' = Inr False"
    by code_simp
  have d': "\<forall>c \<in> set [''gone'']. clause_matches sample_RegExp Map.empty (hd sample_rows) c = Inr False"
    using d by simp
  have e: "hd sample_rows \<in> set sample_rows"
    by code_simp
  have f: "clause_matches sample_RegExp Map.empty (hd sample_rows) ''hello'' = Inr True"
    by code_simp
  from invalid_reg_clause_raises[OF a b c d' e] a b c d e f show ?thesis
    by simp
qed

lemma includes_str_Nil: "includes_str s []"
  by (cases s) simp_all

lemma aifetching_tags:
  "tag_predicates l r ''#aifetching'' =
     (aiSuggestion r \<noteq> None \<and> aiSuggestion r \<noteq> Some [] \<and> l (key r) = Some True)"
  by (simp add: tag_predicates_def)

lemma aifetching_text: "text_predicate RegExp r ''#aifetching'' = Inr True"
proof -
  have "queryWithoutTag ''#aifetching'' = []"
    by code_simp
  then show ?thesis
    by (simp add: text_predicate_def includes_str_Nil)
qed

text \<open>
  C8. What the code does on the clause \<open>#aifetching\<close>: the guard of the \<open>#ai\<close> test is
  \<open>searchTerm.includes("#ai")\<close>, which holds for \<open>#aifetching\<close> too, so the row has to be
  in flight and to carry a non-empty suggestion as well. The claim asks for the row to be
  in flight only.
\<close>

theorem aifetching_clause:
  "clause_matches RegExp l r ''#aifetching'' =
     Inr (aiSuggestion r \<noteq> None \<and> aiSuggestion r \<noteq> Some [] \<and> l (key r) = Some True)"
  by (simp add: clause_matches_def aifetching_text aifetching_tags)

theorem aifetching_clause_witness:
  "(Map.empty(key_a_b \<mapsto> True)) (key (hd fetched_rows)) = Some True \<and>
   aiSuggestion (hd fetched_rows) = Some [] \<and>
   clause_matches sample_RegExp (Map.empty(key_a_b \<mapsto> True)) (hd fetched_rows) ''#aifetching'' = Inr False \<and>
   filteredRows sample_RegExp (Map.empty(key_a_b \<mapsto> True)) fetched_rows ''#aifetching'' = Inr []"
proof -
  have a: "(Map.empty(key_a_b \<mapsto> True)) (key (hd fetched_rows)) = Some True"
    "aiSuggestion (hd fetched_rows) = Some []"
    by code_simp+
  have f: "filteredRows sample_RegExp (Map.empty(key_a_b \<mapsto> True)) fetched_rows ''#aifetching'' = Inr []"
    by code_simp
  from aifetching_clause[of sample_RegExp "Map.empty(key_a_b \<mapsto> True)" "hd fetched_rows"] a f
  show ?thesis by simp
qed

section \<open>Properties of the bulk suggestions\<close>

lemma mark_append: "mark b l (xs @ ys) = mark b (mark b l xs) ys"
  by (simp add: mark_def)

lemma mark_apply: "mark b l rs k = (if k \<in> key ` set rs then Some b else l k)"
  unfolding mark_def by (induction rs arbitrary: l) auto

lemma mark_Nil: "mark b l [] = l"
  by (simp add: mark_def)

lemma chunks_Cons: "0 < c \<Longrightarrow> xs \<noteq> [] \<Longrightarrow> chunks c xs = take c xs # chunks c (drop c xs)"
  by (subst chunks.simps) simp

lemma concat_chunks: "0 < n \<Longrightarrow> concat (chunks n xs) = xs"
proof (induction n xs rule: chunks.induct)
  case (1 n xs)
  show ?case
  proof (cases "xs = []")
    case True
    then show ?thesis by (subst chunks.simps) simp
  next
    case False
    with 1 show ?thesis by (simp add: chunks_Cons)
  qed
qed

lemma suggest_loop_run_chunks:
  "0 < c \<Longrightarrow> suggest_loop g c U i st = run_chunks g (chunks c (drop i U)) st"
proof (induction g c U i st rule: suggest_loop.induct)
  case (1 g c U i st)
  show ?case
  proof (cases "i < length U")
    case True
    then have ch: "chunks c (drop i U) = take c (drop i U) # chunks c (drop (i + c) U)"
      using 1(2) by (simp add: chunks_Cons add.commute)
    show ?thesis
      using True 1
      by (subst suggest_loop.simps) (simp add: Let_def ch split: sum.splits option.splits)
  next
    case False
    then show ?thesis
      by (subst suggest_loop.simps) (simp add: chunks.simps)
  qed
qed

lemma not_aborts: "\<not> aborts (f t) \<Longrightarrow> \<exists>m. getTranslationSuggestions f t = Inr (Some m)"
  by (cases "f t") (simp_all add: aborts_def getTranslationSuggestions_def)

lemma aborts_cases:
  "aborts (f t) \<Longrightarrow>
   getTranslationSuggestions f t = Inl TypeError \<or> getTranslationSuggestions f t = Inr None"
  by (cases "f t") (simp_all add: aborts_def getTranslationSuggestions_def)

lemma failed_call_writes_nothing:
  "generateContent texts = Raises \<or> generateContent texts = Unparsable \<Longrightarrow>
   getTranslationSuggestions generateContent texts = Inr (Some []) \<and>
   apply_suggestions rs [] = rs"
  by (auto simp: getTranslationSuggestions_def apply_suggestions_def)

lemma zip_upt_Cons:
  "zip [k ..< k + length (x # xs)] (x # xs) = (k, x) # zip [Suc k ..< Suc k + length xs] xs"
  by (simp add: upt_conv_Cons del: upt_Suc)

lemma run_chunks_complete:
  "\<forall>j < length cs. \<not> aborts (g (length (requests st) + j) (sourceTexts (cs ! j))) \<Longrightarrow>
   run_chunks g cs st =
     st\<lparr> newRowLoading := mark False (newRowLoading st) (concat cs),
         rows := foldl (chunk_step g) (rows st)
                   (zip [length (requests st) ..< length (requests st) + length cs] cs),
         requests := requests st @ map sourceTexts cs \<rparr>"
proof (induction cs arbitrary: st)
  case Nil
  then show ?case by (simp add: mark_Nil)
next
  case (Cons ch cs)
  from Cons.prems have "\<not> aborts (g (length (requests st)) (sourceTexts ch))"
    by (metis add.right_neutral length_greater_0_conv list.distinct(1) nth_Cons_0)
  then obtain m where m: "getTranslationSuggestions (g (length (requests st))) (sourceTexts ch) = Inr (Some m)"
    using not_aborts by blast
  define st' where "st' = st\<lparr> newRowLoading := mark False (newRowLoading st) ch,
        rows := apply_suggestions (rows st) m,
        requests := requests st @ [sourceTexts ch] \<rparr>"
  have len: "length (requests st') = Suc (length (requests st))"
    by (simp add: st'_def)
  have "\<forall>j < length cs. \<not> aborts (g (length (requests st') + j) (sourceTexts (cs ! j)))"
  proof (intro allI impI)
    fix j assume "j < length cs"
    then have "\<not> aborts (g (length (requests st) + Suc j) (sourceTexts ((ch # cs) ! Suc j)))"
      using Cons.prems by (metis Suc_less_eq length_Cons)
    then show "\<not> aborts (g (length (requests st') + j) (sourceTexts (cs ! j)))"
      by (simp add: len)
  qed
  from Cons.IH[OF this] have "run_chunks g cs st' =
      st'\<lparr> newRowLoading := mark False (newRowLoading st') (concat cs),
           rows := foldl (chunk_step g) (rows st')
                     (zip [length (requests st') ..< length (requests st') + length cs] cs),
           requests := requests st' @ map sourceTexts cs \<rparr>" .
  moreover have "run_chunks g (ch # cs) st = run_chunks g cs st'"
    by (simp add: m st'_def)
  moreover have "chunk_step g (rows st) (length (requests st), ch) = apply_suggestions (rows st) m"
    by (simp add: chunk_step_def m)
  ultimately show ?case
    unfolding zip_upt_Cons by (simp add: st'_def mark_append)
qed

lemma run_chunks_append:
  "\<forall>j < length xs. \<not> aborts (g (length (requests st) + j) (sourceTexts (xs ! j))) \<Longrightarrow>
   run_chunks g (xs @ ys) st = run_chunks g ys (run_chunks g xs st)"
proof (induction xs arbitrary: st)
  case Nil
  then show ?case by simp
next
  case (Cons ch cs)
  from Cons.prems have "\<not> aborts (g (length (requests st)) (sourceTexts ch))"
    by (metis add.right_neutral length_greater_0_conv list.distinct(1) nth_Cons_0)
  then obtain m where m: "getTranslationSuggestions (g (length (requests st))) (sourceTexts ch) = Inr (Some m)"
    using not_aborts by blast
  define st' where "st' = st\<lparr> newRowLoading := mark False (newRowLoading st) ch,
        rows := apply_suggestions (rows st) m,
        requests := requests st @ [sourceTexts ch] \<rparr>"
  have len: "length (requests st') = Suc (length (requests st))"
    by (simp add: st'_def)
  have "\<forall>j < length cs. \<not> aborts (g (length (requests st') + j) (sourceTexts (cs ! j)))"
  proof (intro allI impI)
    fix j assume "j < length cs"
    then have "\<not> aborts (g (length (requests st) + Suc j) (sourceTexts ((ch # cs) ! Suc j)))"
      using Cons.prems by (metis Suc_less_eq length_Cons)
    then show "\<not> aborts (g (length (requests st') + j) (sourceTexts (cs ! j)))"
      by (simp add: len)
  qed
  from Cons.IH[OF this] show ?case
    by (simp add: m st'_def)
qed

lemma run_chunks_abort:
  "aborts (g (length (requests st)) (sourceTexts ch)) \<Longrightarrow>
   requests (run_chunks g (ch # rest) st) = requests st @ [sourceTexts ch] \<and>
   rows (run_chunks g (ch # rest) st) = rows st \<and>
   raised (run_chunks g (ch # rest) st) = Some TypeError"
  using aborts_cases[of "g (length (requests st))" "sourceTexts ch"] by auto

text \<open>
  A run in which no call aborts: every chunk is requested, the answers are written in
  turn, the flags of the candidates are cleared by the second write of the flags.
\<close>

lemma handleSuggestAll_complete:
  assumes "apiKey \<noteq> []" and "project_rows s \<noteq> []"
    and "chunks (if n = 0 then 10 else n) (updatedRows b (rowAiLoading s) f) = cs"
    and "\<forall>j < length cs. \<not> aborts (g j (sourceTexts (cs ! j)))"
  shows "handleSuggestAll apiKey n b f g s =
     \<lparr> rowAiLoading = rowAiLoading s ++
         mark False (mark True (rowAiLoading s) (updatedRows b (rowAiLoading s) f))
           (updatedRows b (rowAiLoading s) f),
       project_rows = foldl (chunk_step g) (project_rows s) (zip [0 ..< length cs] cs),
       provider_requests = provider_requests s @ map sourceTexts cs,
       caught = None \<rparr>"
proof -
  define c where "c = (if n = 0 then 10 else n)"
  have c: "0 < c" by (simp add: c_def)
  let ?U = "updatedRows b (rowAiLoading s) f"
  let ?st = "\<lparr> newRowLoading = mark True (rowAiLoading s) ?U, rows = project_rows s,
               requests = [], raised = None \<rparr>"
  have cs: "chunks c ?U = cs"
    using assms(3) by (simp add: c_def)
  have "suggest_loop g c ?U 0 ?st = run_chunks g cs ?st"
    using suggest_loop_run_chunks[OF c, of g ?U 0 ?st] cs by simp
  also have "\<dots> = ?st\<lparr> newRowLoading := mark False (newRowLoading ?st) (concat cs),
         rows := foldl (chunk_step g) (rows ?st)
                   (zip [length (requests ?st) ..< length (requests ?st) + length cs] cs),
         requests := requests ?st @ map sourceTexts cs \<rparr>"
    by (rule run_chunks_complete) (simp add: assms(4))
  finally have "suggest_loop g c ?U 0 ?st =
      \<lparr> newRowLoading = mark False (mark True (rowAiLoading s) ?U) ?U,
        rows = foldl (chunk_step g) (project_rows s) (zip [0 ..< length cs] cs),
        requests = map sourceTexts cs, raised = None \<rparr>"
    using concat_chunks[OF c, of ?U] cs by simp
  then show ?thesis
    using assms(1,2) by (simp add: handleSuggestAll_def Let_def c_def)
qed

text \<open>
  A run whose first aborting call is the one for the chunk \<open>ch\<close>: the chunks up to \<open>ch\<close> are
  requested and no other, the answers for the chunks before \<open>ch\<close> are in the rows, the
  error is caught, and the flags are those the first write of the flags set.
\<close>

lemma handleSuggestAll_abort:
  assumes "apiKey \<noteq> []" and "project_rows s \<noteq> []"
    and "chunks (if n = 0 then 10 else n) (updatedRows b (rowAiLoading s) f) = before @ ch # rest"
    and "\<forall>j < length before. \<not> aborts (g j (sourceTexts (before ! j)))"
    and "aborts (g (length before) (sourceTexts ch))"
  shows "handleSuggestAll apiKey n b f g s =
     \<lparr> rowAiLoading = rowAiLoading s ++ mark True (rowAiLoading s) (updatedRows b (rowAiLoading s) f),
       project_rows = foldl (chunk_step g) (project_rows s) (zip [0 ..< length before] before),
       provider_requests = provider_requests s @ map sourceTexts (before @ [ch]),
       caught = Some TypeError \<rparr>"
proof -
  define c where "c = (if n = 0 then 10 else n)"
  have c: "0 < c" by (simp add: c_def)
  let ?U = "updatedRows b (rowAiLoading s) f"
  let ?st = "\<lparr> newRowLoading = mark True (rowAiLoading s) ?U, rows = project_rows s,
               requests = [], raised = None \<rparr>"
  define st1 where "st1 = run_chunks g before ?st"
  have cs: "chunks c ?U = before @ ch # rest"
    using assms(3) by (simp add: c_def)
  have st1: "st1 = ?st\<lparr> newRowLoading := mark False (newRowLoading ?st) (concat before),
         rows := foldl (chunk_step g) (rows ?st)
                   (zip [length (requests ?st) ..< length (requests ?st) + length before] before),
         requests := requests ?st @ map sourceTexts before \<rparr>"
    unfolding st1_def by (rule run_chunks_complete) (simp add: assms(4))
  have "suggest_loop g c ?U 0 ?st = run_chunks g (before @ ch # rest) ?st"
    using suggest_loop_run_chunks[OF c, of g ?U 0 ?st] cs by simp
  also have "\<dots> = run_chunks g (ch # rest) st1"
    unfolding st1_def by (rule run_chunks_append) (simp add: assms(4))
  finally have loop: "suggest_loop g c ?U 0 ?st = run_chunks g (ch # rest) st1" .
  have "aborts (g (length (requests st1)) (sourceTexts ch))"
    using assms(5) by (simp add: st1)
  from run_chunks_abort[of g st1 ch rest, OF this]
  have "requests (suggest_loop g c ?U 0 ?st) = map sourceTexts (before @ [ch])"
    "rows (suggest_loop g c ?U 0 ?st) =
       foldl (chunk_step g) (project_rows s) (zip [0 ..< length before] before)"
    "raised (suggest_loop g c ?U 0 ?st) = Some TypeError"
    unfolding loop by (simp_all add: st1)
  then show ?thesis
    using assms(1,2) by (simp add: handleSuggestAll_def Let_def c_def)
qed

lemma updatedRows_not_loading: "r \<in> set (updatedRows b l f) \<Longrightarrow> l (key r) \<noteq> Some True"
  by (simp add: updatedRows_def)

text \<open>
  C4, as the claim states it, fails: the first call of this provider raises, and the
  second chunk is requested all the same, its suggestion is written, and no error is
  caught.
\<close>

theorem failed_chunk_counterexample:
  "failing_provider 0 [(key_a_b, ''Hello'')] = Raises \<and>
   provider_requests (handleSuggestAll ''key'' 1 False fetched_rows failing_provider idle) =
     [[(key_a_b, ''Hello'')], [(key_c, ''New'')]] \<and>
   map aiSuggestion (project_rows (handleSuggestAll ''key'' 1 False fetched_rows failing_provider idle)) =
     [Some [], Some ''fr New''] \<and>
   caught (handleSuggestAll ''key'' 1 False fetched_rows failing_provider idle) = None"
  by code_simp

text \<open>
  C4, amended. A provider call that raises, or whose text does not parse, is absorbed by
  \<open>getTranslationSuggestions\<close>, which returns the empty object: the chunk writes no
  suggestion and the run goes on. When no call aborts, every chunk of the candidates is
  requested, in order, the rows at the end are the rows at the start with the answers of
  all the calls written in turn, and no error is caught. The run aborts only at a call
  that \<open>getTranslationSuggestions\<close> itself fails: it rejects before its \<open>try\<close>, or returns
  \<open>null\<close>. Then the chunks up to that one have been requested and no later one is, the
  suggestions written for the chunks before it stay in the rows, and the handler catches
  one error.
\<close>

theorem handleSuggestAll_failed_chunk:
  assumes "apiKey \<noteq> []" and "project_rows s \<noteq> []"
    and "cs = chunks (if n = 0 then 10 else n) (updatedRows b (rowAiLoading s) f)"
  shows "(\<forall>j rs ch. g j (sourceTexts ch) = Raises \<or> g j (sourceTexts ch) = Unparsable \<longrightarrow>
            \<not> aborts (g j (sourceTexts ch)) \<and> chunk_step g rs (j, ch) = rs) \<and>
         ((\<forall>j < length cs. \<not> aborts (g j (sourceTexts (cs ! j)))) \<longrightarrow>
            provider_requests (handleSuggestAll apiKey n b f g s) =
              provider_requests s @ map sourceTexts cs \<and>
            project_rows (handleSuggestAll apiKey n b f g s) =
              foldl (chunk_step g) (project_rows s) (zip [0 ..< length cs] cs) \<and>
            caught (handleSuggestAll apiKey n b f g s) = None) \<and>
         (\<forall>before ch rest.
            cs = before @ ch # rest \<and>
            (\<forall>j < length before. \<not> aborts (g j (sourceTexts (before ! j)))) \<and>
            aborts (g (length before) (sourceTexts ch)) \<longrightarrow>
            provider_requests (handleSuggestAll apiKey n b f g s) =
              provider_requests s @ map sourceTexts (before @ [ch]) \<and>
            project_rows (handleSuggestAll apiKey n b f g s) =
              foldl (chunk_step g) (project_rows s) (zip [0 ..< length before] before) \<and>
            caught (handleSuggestAll apiKey n b f g s) = Some TypeError)"
proof (intro conjI allI impI)
  fix j rs ch
  assume a: "g j (sourceTexts ch) = Raises \<or> g j (sourceTexts ch) = Unparsable"
  then show "\<not> aborts (g j (sourceTexts ch))"
    by (auto simp: aborts_def)
  from failed_call_writes_nothing[of "g j" "sourceTexts ch" rs, OF a] show "chunk_step g rs (j, ch) = rs"
    by (simp add: chunk_step_def)
next
  assume a: "\<forall>j < length cs. \<not> aborts (g j (sourceTexts (cs ! j)))"
  note e = handleSuggestAll_complete[of apiKey s n b f cs g, OF assms(1,2) assms(3)[symmetric] a]
  show "provider_requests (handleSuggestAll apiKey n b f g s) =
      provider_requests s @ map sourceTexts cs"
    by (simp add: e)
  show "project_rows (handleSuggestAll apiKey n b f g s) =
      foldl (chunk_step g) (project_rows s) (zip [0 ..< length cs] cs)"
    by (simp add: e)
  show "caught (handleSuggestAll apiKey n b f g s) = None"
    by (simp add: e)
next
  fix before ch rest
  assume a: "cs = before @ ch # rest \<and>
      (\<forall>j < length before. \<not> aborts (g j (sourceTexts (before ! j)))) \<and>
      aborts (g (length before) (sourceTexts ch))"
  then have "chunks (if n = 0 then 10 else n) (updatedRows b (rowAiLoading s) f) = before @ ch # rest"
    using assms(3) by simp
  note e = handleSuggestAll_abort[of apiKey s n b f before ch rest g, OF assms(1,2) this]
  from a have e': "handleSuggestAll apiKey n b f g s =
     \<lparr> rowAiLoading = rowAiLoading s ++ mark True (rowAiLoading s) (updatedRows b (rowAiLoading s) f),
       project_rows = foldl (chunk_step g) (project_rows s) (zip [0 ..< length before] before),
       provider_requests = provider_requests s @ map sourceTexts (before @ [ch]),
       caught = Some TypeError \<rparr>"
    by (intro e) simp_all
  show "provider_requests (handleSuggestAll apiKey n b f g s) =
      provider_requests s @ map sourceTexts (before @ [ch])"
    by (simp add: e')
  show "project_rows (handleSuggestAll apiKey n b f g s) =
      foldl (chunk_step g) (project_rows s) (zip [0 ..< length before] before)"
    by (simp add: e')
  show "caught (handleSuggestAll apiKey n b f g s) = Some TypeError"
    by (simp add: e')
qed

theorem handleSuggestAll_failed_chunk_witness:
  "''key'' \<noteq> [] \<and> project_rows idle \<noteq> [] \<and>
   chunks (if (1::nat) = 0 then 10 else 1) (updatedRows False (rowAiLoading idle) fetched_rows) =
     [[hd fetched_rows], [last fetched_rows]] \<and>
   failing_provider 0 (sourceTexts [hd fetched_rows]) = Raises \<and>
   chunk_step failing_provider fetched_rows (0, [hd fetched_rows]) = fetched_rows \<and>
   list_all (\<lambda>j. \<not> aborts (failing_provider j
       (sourceTexts ([[hd fetched_rows], [last fetched_rows]] ! j)))) [0, 1] \<and>
   provider_requests (handleSuggestAll ''key'' 1 False fetched_rows failing_provider idle) =
     [sourceTexts [hd fetched_rows], sourceTexts [last fetched_rows]] \<and>
   caught (handleSuggestAll ''key'' 1 False fetched_rows failing_provider idle) = None \<and>
   list_all (\<lambda>j. \<not> aborts (partial_provider j (sourceTexts ([[hd fetched_rows]] ! j)))) [0] \<and>
   aborts (partial_provider 1 (sourceTexts [last fetched_rows])) \<and>
   provider_requests (handleSuggestAll ''key'' 1 False fetched_rows partial_provider idle) =
     [sourceTexts [hd fetched_rows], sourceTexts [last fetched_rows]] \<and>
   project_rows (handleSuggestAll ''key'' 1 False fetched_rows partial_provider idle) =
     chunk_step partial_provider fetched_rows (0, [hd fetched_rows]) \<and>
   map aiSuggestion (project_rows (handleSuggestAll ''key'' 1 False fetched_rows partial_provider idle)) =
     [Some ''fr Hello'', Some []] \<and>
   caught (handleSuggestAll ''key'' 1 False fetched_rows partial_provider idle) = Some TypeError"
proof -
  define cs where "cs = [[hd fetched_rows], [last fetched_rows]]"
  have a: "''key'' \<noteq> []" "project_rows idle \<noteq> []"
    by code_simp+
  have e: "cs = chunks (if (1::nat) = 0 then 10 else 1) (updatedRows False (rowAiLoading idle) fetched_rows)"
    unfolding cs_def by code_simp
  have r: "failing_provider 0 (sourceTexts [hd fetched_rows]) = Raises"
    by code_simp
  have n: "list_all (\<lambda>j. \<not> aborts (failing_provider j (sourceTexts (cs ! j)))) [0, 1]"
    unfolding cs_def by code_simp
  then have n': "\<forall>j < length cs. \<not> aborts (failing_provider j (sourceTexts (cs ! j)))"
    by (simp add: cs_def less_Suc_eq)
  have m: "list_all (\<lambda>j. \<not> aborts (partial_provider j (sourceTexts ([[hd fetched_rows]] ! j)))) [0]"
    "aborts (partial_provider 1 (sourceTexts [last fetched_rows]))"
    by code_simp+
  have v: "map aiSuggestion (project_rows (handleSuggestAll ''key'' 1 False fetched_rows partial_provider idle)) =
     [Some ''fr Hello'', Some []]"
    by code_simp
  have split: "cs = [[hd fetched_rows]] @ [last fetched_rows] # []"
    by (simp add: cs_def)
  note t = handleSuggestAll_failed_chunk[OF a e, of failing_provider]
  note u = handleSuggestAll_failed_chunk[OF a e, of partial_provider]
  have q: "chunk_step failing_provider fetched_rows (0, [hd fetched_rows]) = fetched_rows"
    using t r by blast
  have p: "provider_requests (handleSuggestAll ''key'' 1 False fetched_rows failing_provider idle) =
      provider_requests idle @ map sourceTexts cs"
    "caught (handleSuggestAll ''key'' 1 False fetched_rows failing_provider idle) = None"
    using t n' by blast+
  have "(\<forall>j < length [[hd fetched_rows]].
      \<not> aborts (partial_provider j (sourceTexts ([[hd fetched_rows]] ! j)))) \<and>
      aborts (partial_provider (length [[hd fetched_rows]]) (sourceTexts [last fetched_rows]))"
    using m by simp
  with u split have
    "provider_requests (handleSuggestAll ''key'' 1 False fetched_rows partial_provider idle) =
       provider_requests idle @ map sourceTexts ([[hd fetched_rows]] @ [[last fetched_rows]])"
    "project_rows (handleSuggestAll ''key'' 1 False fetched_rows partial_provider idle) =
       foldl (chunk_step partial_provider) (project_rows idle)
         (zip [0 ..< length [[hd fetched_rows]]] [[hd fetched_rows]])"
    "caught (handleSuggestAll ''key'' 1 False fetched_rows partial_provider idle) = Some TypeError"
    by blast+
  then have w:
    "provider_requests (handleSuggestAll ''key'' 1 False fetched_rows partial_provider idle) =
       [sourceTexts [hd fetched_rows], sourceTexts [last fetched_rows]]"
    "project_rows (handleSuggestAll ''key'' 1 False fetched_rows partial_provider idle) =
       chunk_step partial_provider fetched_rows (0, [hd fetched_rows])"
    "caught (handleSuggestAll ''key'' 1 False fetched_rows partial_provider idle) = Some TypeError"
    by (simp_all add: idle_def)
  show ?thesis
    using a e[symmetric] r q n m v p w by (simp add: cs_def idle_def)
qed

text \<open>
  C5 does not hold of the code. A run in which no call aborts leaves none of the rows it
  selected marked in flight, and the keys marked in flight are those that were marked
  before the call. But a run that aborts (a call is rejected, or returns \<open>null\<close>) leaves
  every row it selected marked in flight: the \<open>catch\<close> block alerts and clears nothing.
\<close>

theorem handleSuggestAll_flags:
  assumes "apiKey \<noteq> []" and "project_rows s \<noteq> []"
    and "cs = chunks (if n = 0 then 10 else n) (updatedRows b (rowAiLoading s) f)"
  shows "((\<forall>j < length cs. \<not> aborts (g j (sourceTexts (cs ! j)))) \<longrightarrow>
            (\<forall>r \<in> set (updatedRows b (rowAiLoading s) f).
               rowAiLoading (handleSuggestAll apiKey n b f g s) (key r) = Some False) \<and>
            {k. rowAiLoading (handleSuggestAll apiKey n b f g s) k = Some True} =
              {k. rowAiLoading s k = Some True}) \<and>
         (\<forall>before ch rest.
            cs = before @ ch # rest \<and>
            (\<forall>j < length before. \<not> aborts (g j (sourceTexts (before ! j)))) \<and>
            aborts (g (length before) (sourceTexts ch)) \<longrightarrow>
            (\<forall>r \<in> set (updatedRows b (rowAiLoading s) f).
               rowAiLoading (handleSuggestAll apiKey n b f g s) (key r) = Some True))"
proof (intro conjI allI impI ballI)
  assume a: "\<forall>j < length cs. \<not> aborts (g j (sourceTexts (cs ! j)))"
  note e = handleSuggestAll_complete[of apiKey s n b f cs g, OF assms(1,2) assms(3)[symmetric] a]
  let ?U = "updatedRows b (rowAiLoading s) f"
  have flags: "rowAiLoading (handleSuggestAll apiKey n b f g s) k =
      (if k \<in> key ` set ?U then Some False else rowAiLoading s k)" for k
    by (auto simp: e mark_apply map_add_def split: option.splits)
  show "rowAiLoading (handleSuggestAll apiKey n b f g s) (key r) = Some False" if "r \<in> set ?U" for r
    using that by (simp add: flags)
  show "{k. rowAiLoading (handleSuggestAll apiKey n b f g s) k = Some True} =
      {k. rowAiLoading s k = Some True}"
    using updatedRows_not_loading[of _ b "rowAiLoading s" f] by (auto simp: flags)
next
  fix before ch rest r
  assume a: "cs = before @ ch # rest \<and>
      (\<forall>j < length before. \<not> aborts (g j (sourceTexts (before ! j)))) \<and>
      aborts (g (length before) (sourceTexts ch))"
    and r: "r \<in> set (updatedRows b (rowAiLoading s) f)"
  from a have "chunks (if n = 0 then 10 else n) (updatedRows b (rowAiLoading s) f) = before @ ch # rest"
    using assms(3) by simp
  note e = handleSuggestAll_abort[of apiKey s n b f before ch rest g, OF assms(1,2) this]
  from a have e': "handleSuggestAll apiKey n b f g s =
     \<lparr> rowAiLoading = rowAiLoading s ++ mark True (rowAiLoading s) (updatedRows b (rowAiLoading s) f),
       project_rows = foldl (chunk_step g) (project_rows s) (zip [0 ..< length before] before),
       provider_requests = provider_requests s @ map sourceTexts (before @ [ch]),
       caught = Some TypeError \<rparr>"
    by (intro e) simp_all
  show "rowAiLoading (handleSuggestAll apiKey n b f g s) (key r) = Some True"
    using r by (auto simp: e' mark_apply map_add_def split: option.splits)
qed

theorem handleSuggestAll_flags_witness:
  "''key'' \<noteq> [] \<and> project_rows idle \<noteq> [] \<and>
   chunks (if (1::nat) = 0 then 10 else 1) (updatedRows False (rowAiLoading idle) fetched_rows) =
     [] @ [hd fetched_rows] # [[last fetched_rows]] \<and>
   aborts (null_provider 0 (sourceTexts [hd fetched_rows])) \<and>
   updatedRows False (rowAiLoading idle) fetched_rows = fetched_rows \<and>
   list_all (\<lambda>r. rowAiLoading (handleSuggestAll ''key'' 1 False fetched_rows null_provider idle) (key r) = Some True)
     fetched_rows \<and>
   caught (handleSuggestAll ''key'' 1 False fetched_rows null_provider idle) = Some TypeError"
proof -
  have a: "''key'' \<noteq> []" "project_rows idle \<noteq> []"
    by code_simp+
  have e: "[] @ [hd fetched_rows] # [[last fetched_rows]] =
      chunks (if (1::nat) = 0 then 10 else 1) (updatedRows False (rowAiLoading idle) fetched_rows)"
    by code_simp
  have n: "aborts (null_provider 0 (sourceTexts [hd fetched_rows]))"
    by code_simp
  have u: "updatedRows False (rowAiLoading idle) fetched_rows = fetched_rows"
    by code_simp
  have c: "caught (handleSuggestAll ''key'' 1 False fetched_rows null_provider idle) = Some TypeError"
    by code_simp
  note t = handleSuggestAll_flags[OF a e, of null_provider]
  have "[] @ [hd fetched_rows] # [[last fetched_rows]] = [] @ [hd fetched_rows] # [[last fetched_rows]] \<and>
      (\<forall>j < length ([] :: TranslationRow list list).
         \<not> aborts (null_provider j (sourceTexts ([] ! j)))) \<and>
      aborts (null_provider (length ([] :: TranslationRow list list)) (sourceTexts [hd fetched_rows]))"
    using n by simp
  with t have "\<forall>r \<in> set (updatedRows False (rowAiLoading idle) fetched_rows).
      rowAiLoading (handleSuggestAll ''key'' 1 False fetched_rows null_provider idle) (key r) = Some True"
    by blast
  then have "list_all (\<lambda>r. rowAiLoading (handleSuggestAll ''key'' 1 False fetched_rows null_provider idle) (key r) = Some True)
      fetched_rows"
    by (simp add: u list_all_iff)
  with a e[symmetric] n u c show ?thesis
    by simp
qed

section \<open>Properties of the path codec\<close>

lemma walk_leaves:
  "walk path d = map (\<lambda>q. (path @ concat (map raw_segment (fst q)), snd q)) (leaves d)"
proof (induction path d rule: walk.induct)
  case (1 path v)
  then show ?case by simp
next
  case (2 path ps)
  have "walk (path @ ''['' @ [dq] @ fst p @ [dq] @ '']'') (snd p) =
      map (\<lambda>q. (path @ concat (map raw_segment (fst q)), snd q))
        (map (\<lambda>q. (Member (fst p) # fst q, snd q)) (leaves (snd p)))" if "p \<in> set ps" for p
    using 2[OF that] by (simp add: comp_def)
  then show ?case
    by (simp add: map_concat comp_def cong: map_cong)
next
  case (3 path xs)
  have "walk (path @ ''['' @ show_nat (fst p) @ '']'') (snd p) =
      map (\<lambda>q. (path @ concat (map raw_segment (fst q)), snd q))
        (map (\<lambda>q. (Index (fst p) # fst q, snd q)) (leaves (snd p)))"
    if "p \<in> set (zip [0 ..< length xs] xs)" for p
    using 3[OF that] by (simp add: comp_def)
  then show ?case
    by (simp add: map_concat comp_def cong: map_cong)
qed

lemma raw_segment_path_text: "raw_segment s = ''['' @ path_text s @ '']''"
  by (cases s) simp_all

lemma raw_path_join:
  "p \<noteq> [] \<Longrightarrow> concat (map raw_segment p) = ''['' @ join (map path_text p) '']['' @ '']''"
proof (induction p rule: induct_list012)
  case 1
  then show ?case by simp
next
  case (2 s)
  then show ?case by (simp add: raw_segment_path_text)
next
  case (3 s t r)
  then show ?case by (simp add: raw_segment_path_text)
qed

lemma substring_strip: "substring (a # x @ [b]) 1 (int (length (a # x @ [b])) - 1) = x"
  by (simp add: substring_def Let_def)

lemma show_nat_digits: "set (show_nat n) \<subseteq> set ''0123456789''"
proof (induction n rule: show_nat.induct)
  case (1 n)
  have d: "digit_char m \<in> set ''0123456789''" for m
    unfolding digit_char_def by (rule nth_mem) simp
  show ?case
  proof (cases "n < 10")
    case True
    then show ?thesis by (subst show_nat.simps) (use d[of n] in simp)
  next
    case False
    with 1 have "set (show_nat (n div 10)) \<subseteq> set ''0123456789''" by simp
    with False show ?thesis by (subst show_nat.simps) (use d[of n] in simp)
  qed
qed

lemma show_nat_not_Nil: "show_nat n \<noteq> []"
  by (subst show_nat.simps) simp

lemma includes_str_no_char:
  "c \<notin> set s \<Longrightarrow> c \<in> set t \<Longrightarrow> \<not> includes_str s t"
proof (induction s)
  case Nil
  then show ?case by auto
next
  case (Cons a s)
  have "\<not> prefix t (a # s)"
    using Cons.prems by (metis set_mono_prefix subsetD)
  with Cons show ?case by simp
qed

lemma includes_str_single: "includes_str s [c] \<longleftrightarrow> c \<in> set s"
  by (induction s) auto

lemma replaceAll_no_match:
  "pat \<noteq> [] \<Longrightarrow> \<not> includes_str s pat \<Longrightarrow> replaceAll s pat rep = s"
  by (induction s) auto

lemma replaceAll_Cons_no:
  "\<not> prefix pat (c # cs) \<Longrightarrow> replaceAll (c # cs) pat rep = c # replaceAll cs pat rep"
  by simp

lemma replaceAll_brackets_append:
  assumes "\<not> includes_str a ''][''"
  shows "replaceAll (a @ '']['' @ rest) '']['' rep = a @ rep @ replaceAll rest '']['' rep"
proof -
  define t where "t = '']['' @ rest"
  have t: "replaceAll t '']['' rep = rep @ replaceAll rest '']['' rep"
    by (simp add: t_def)
  from assms have "replaceAll (a @ t) '']['' rep = a @ rep @ replaceAll rest '']['' rep"
  proof (induction a)
    case Nil
    then show ?case by (simp add: t)
  next
    case (Cons c a)
    have np: "\<not> prefix '']['' (c # a @ t)"
    proof
      assume *: "prefix '']['' (c # a @ t)"
      show False
      proof (cases a)
        case Nil
        with * show False by (simp add: t_def)
      next
        case (Cons x a')
        with * have "prefix '']['' (c # a)" by simp
        with Cons.prems show False by simp
      qed
    qed
    from Cons.prems have "\<not> includes_str a ''][''"
      by simp
    then have ih: "replaceAll (a @ t) '']['' rep = a @ rep @ replaceAll rest '']['' rep"
      by (rule Cons.IH)
    have "replaceAll (c # a @ t) '']['' rep = c # replaceAll (a @ t) '']['' rep"
      by (rule replaceAll_Cons_no[OF np])
    then show ?case
      unfolding ih by simp
  qed
  then show ?thesis
    by (simp add: t_def)
qed

lemma replaceAll_join:
  "\<forall>s \<in> set ss. \<not> includes_str s '']['' \<Longrightarrow> replaceAll (join ss '']['') '']['' rep = join ss rep"
proof (induction ss rule: induct_list012)
  case 1
  then show ?case by simp
next
  case (2 s)
  then show ?case by (simp add: replaceAll_no_match)
next
  case (3 s t r)
  then show ?case
    using replaceAll_brackets_append[of s "join (t # r) ''][''" rep] by simp
qed

lemma replaceAll_char: "replaceAll s [a] [b] = map (\<lambda>c. if c = a then b else c) s"
  by (induction s) auto

lemma replaceAll_delete: "replaceAll s [a] [] = filter (\<lambda>c. c \<noteq> a) s"
  by (induction s) auto

lemma map_join: "map f (join ss sep) = join (map (map f) ss) (map f sep)"
  by (induction ss rule: induct_list012) simp_all

lemma includes_str_snoc:
  "\<not> includes_str k pat \<Longrightarrow> x \<notin> set pat \<Longrightarrow> \<not> includes_str (k @ [x]) pat"
proof (induction k)
  case Nil
  then show ?case by (cases pat) auto
next
  case (Cons c k)
  have "\<not> prefix pat ((c # k) @ [x])"
    using Cons.prems unfolding prefix_snoc by auto
  with Cons show ?case by simp
qed

lemma dq_not_digit: "dq \<notin> set (show_nat n)"
  using show_nat_digits[of n] by (auto simp: dq_def)

lemma path_text_no_brackets:
  assumes "\<forall>k. s = Member k \<longrightarrow> plain_key k"
  shows "\<not> includes_str (path_text s) ''][''"
proof (cases s)
  case (Member k)
  with assms have "\<not> includes_str k ''][''"
    by (simp add: plain_key_def)
  then have "\<not> includes_str (k @ [dq]) ''][''"
    by (rule includes_str_snoc) (simp add: dq_def)
  then show ?thesis
    using Member by (simp add: dq_def)
next
  case (Index i)
  have "CHR '']'' \<notin> set (show_nat i)"
    using show_nat_digits[of i] by auto
  then show ?thesis
    using Index by (simp add: includes_str_no_char)
qed

lemma path_text_quotes:
  assumes "\<forall>k. s = Member k \<longrightarrow> plain_key k"
  shows "map (\<lambda>c. if c = dq then sq else c) (path_text s) = segment_text s"
proof (cases s)
  case (Member k)
  with assms have "dq \<notin> set k"
    by (simp add: plain_key_def)
  then have "map (\<lambda>c. if c = dq then sq else c) k = k"
    by (induction k) auto
  then show ?thesis
    using Member by simp
next
  case (Index i)
  have "map (\<lambda>c. if c = dq then sq else c) (show_nat i) = show_nat i"
    using dq_not_digit[of i] by (intro map_idI) auto
  then show ?thesis
    using Index by simp
qed

lemma flat_key_path:
  assumes "\<forall>k. Member k \<in> set p \<longrightarrow> plain_key k"
  shows "flat_key (concat (map raw_segment p)) = dotted_path p"
proof (cases "p = []")
  case True
  then show ?thesis
    by (simp add: flat_key_def dotted_path_def substring_def)
next
  case False
  let ?J = "join (map path_text p) ''][''"
  have raw: "concat (map raw_segment p) = CHR ''['' # ?J @ '']''"
    using raw_path_join[OF False] by simp
  have "substring (concat (map raw_segment p)) 1 (int (length (concat (map raw_segment p))) - 1) = ?J"
    unfolding raw by (rule substring_strip)
  moreover have "replaceAll ?J '']['' ''.'' = join (map path_text p) ''.''"
  proof (rule replaceAll_join, rule ballI)
    fix t assume "t \<in> set (map path_text p)"
    then obtain s where s: "s \<in> set p" "t = path_text s"
      by auto
    with assms have "\<forall>k. s = Member k \<longrightarrow> plain_key k"
      by blast
    then show "\<not> includes_str t ''][''"
      unfolding s(2) by (rule path_text_no_brackets)
  qed
  moreover have "replaceAll (join (map path_text p) ''.'') [dq] [sq] = join (map segment_text p) ''.''"
  proof -
    have "map (\<lambda>c. if c = dq then sq else c) (path_text s) = segment_text s" if "s \<in> set p" for s
      using assms that by (intro path_text_quotes) blast
    then have m: "map (map (\<lambda>c. if c = dq then sq else c)) (map path_text p) = map segment_text p"
      by simp
    have "map (\<lambda>c. if c = dq then sq else c) ''.'' = ''.''"
      by (simp add: dq_def)
    then show ?thesis
      unfolding replaceAll_char map_join m by simp
  qed
  ultimately show ?thesis
    by (simp add: flat_key_def dotted_path_def)
qed

lemma leaves_keys:
  "q \<in> set (leaves d) \<Longrightarrow> Member k \<in> set (fst q) \<Longrightarrow> k \<in> set (all_keys d)"
proof (induction d arbitrary: q rule: leaves.induct)
  case (1 v)
  then show ?case by simp
next
  case (2 ps)
  from 2(2) obtain p q' where p: "p \<in> set ps" "q' \<in> set (leaves (snd p))" "q = (Member (fst p) # fst q', snd q')"
    by auto
  show ?case
  proof (cases "k = fst p")
    case True
    with p(1) show ?thesis by auto
  next
    case False
    with p(3) 2(3) have "Member k \<in> set (fst q')" by simp
    from 2(1)[OF p(1,2) this] p(1) show ?thesis by auto
  qed
next
  case (3 xs)
  from 3(2) obtain p q' where p: "p \<in> set (zip [0 ..< length xs] xs)" "q' \<in> set (leaves (snd p))"
      "q = (Index (fst p) # fst q', snd q')"
    by auto
  with 3(3) have "Member k \<in> set (fst q')" by simp
  from 3(1)[OF p(1,2) this] have "k \<in> set (all_keys (snd p))" .
  moreover have "snd p \<in> set xs"
    using p(1) by (metis prod.collapse set_zip_rightD)
  ultimately show ?case by auto
qed

lemma walk_flat_keys:
  assumes "\<forall>k \<in> set (all_keys d). plain_key k"
  shows "map (\<lambda>e. (flat_key (fst e), snd e)) (walk [] d) =
           map (\<lambda>q. (dotted_path (fst q), snd q)) (leaves d)"
proof -
  have "flat_key (concat (map raw_segment (fst q))) = dotted_path (fst q)"
    if "q \<in> set (leaves d)" for q
    using assms leaves_keys[OF that] by (intro flat_key_path) blast
  then show ?thesis
    unfolding walk_leaves by (simp add: comp_def)
qed

lemma flattenObject_leaves:
  assumes "\<forall>k \<in> set (all_keys d). plain_key k"
  shows "flattenObject d =
           foldl (\<lambda>newObj q. set_property newObj (dotted_path (fst q)) (snd q)) [] (leaves d)"
proof -
  have "flattenObject d =
      foldl (\<lambda>newObj e. set_property newObj (fst e) (snd e)) []
        (map (\<lambda>e. (flat_key (fst e), snd e)) (walk [] d))"
    by (simp add: flattenObject_def foldl_map)
  also have "\<dots> = foldl (\<lambda>newObj q. set_property newObj (dotted_path (fst q)) (snd q)) [] (leaves d)"
    unfolding walk_flat_keys[OF assms] by (simp add: foldl_map)
  finally show ?thesis .
qed

text \<open>
  C7, as the claim states it, fails: the leaf at \<open>auth\<close>, \<open>errors\<close>, \<open>0\<close>, \<open>message\<close> is
  not emitted under \<open>auth.errors.0.message\<close>, the literal dotted path, but under that
  path with each object key in single quotes.
\<close>

theorem flat_key_counterexample:
  "map fst (leaves auth_doc) = [auth_path] \<and>
   literal_path auth_path = ''auth.errors.0.message'' \<and>
   keys (flattenObject auth_doc) = [dotted_path auth_path] \<and>
   keys (flattenObject auth_doc) \<noteq> [literal_path auth_path]"
  by code_simp

text \<open>
  C7, amended. For every document whose object keys hold no double quote and no \<open>][\<close>,
  the key under which flatten stores a scalar leaf is the dotted path of the leaf, with
  the plain decimal index for a position in an array and the object key wrapped in single
  quotes for a position in an object: the assignments the callback makes are, leaf by leaf
  in traversal order, those of the dotted paths, and the flat object is built from them.
\<close>

theorem flattenObject_keys:
  assumes "\<forall>k \<in> set (all_keys d). plain_key k"
  shows "map (\<lambda>e. (flat_key (fst e), snd e)) (walk [] d) =
           map (\<lambda>q. (dotted_path (fst q), snd q)) (leaves d) \<and>
         flattenObject d =
           foldl (\<lambda>newObj q. set_property newObj (dotted_path (fst q)) (snd q)) [] (leaves d)"
  using assms walk_flat_keys flattenObject_leaves by blast

theorem flattenObject_keys_witness:
  "list_all plain_key (all_keys auth_doc) \<and>
   leaves auth_doc = [(auth_path, Str ''Required'')] \<and>
   dotted_path auth_path = [sq] @ ''auth'' @ [sq] @ ''.'' @ [sq] @ ''errors'' @ [sq] @ ''.0.'' @ [sq] @ ''message'' @ [sq] \<and>
   flattenObject auth_doc = [(dotted_path auth_path, Str ''Required'')]"
proof -
  have a: "list_all plain_key (all_keys auth_doc)"
    by code_simp
  then have b: "\<forall>k \<in> set (all_keys auth_doc). plain_key k"
    by (simp add: list_all_iff)
  have l: "leaves auth_doc = [(auth_path, Str ''Required'')]"
    by code_simp
  have d: "dotted_path auth_path =
      [sq] @ ''auth'' @ [sq] @ ''.'' @ [sq] @ ''errors'' @ [sq] @ ''.0.'' @ [sq] @ ''message'' @ [sq]"
    by code_simp
  from flattenObject_keys[OF b] have "flattenObject auth_doc =
      foldl (\<lambda>newObj q. set_property newObj (dotted_path (fst q)) (snd q)) [] (leaves auth_doc)"
    by blast
  also have "\<dots> = set_property [] (dotted_path auth_path) (Str ''Required'')"
    unfolding l by simp
  also have "\<dots> = [(dotted_path auth_path, Str ''Required'')]"
    by code_simp
  finally show ?thesis
    using a l d by simp
qed

lemma split_no_sep: "c \<notin> set a \<Longrightarrow> split a [c] = [a]"
  by (induction a) auto

lemma split_append: "c \<notin> set a \<Longrightarrow> split (a @ c # rest) [c] = a # split rest [c]"
  by (induction a) auto

lemma split_join:
  "ss \<noteq> [] \<Longrightarrow> \<forall>s \<in> set ss. c \<notin> set s \<Longrightarrow> split (join ss [c]) [c] = ss"
proof (induction ss rule: induct_list012)
  case 1
  then show ?case by simp
next
  case (2 s)
  then show ?case by (simp add: split_no_sep)
next
  case (3 s t r)
  then show ?case by (simp add: split_append)
qed

lemma digit_val_digit_char: "m < 10 \<Longrightarrow> digit_val (digit_char m) = m"
proof -
  assume "m < 10"
  then have "m \<in> {0, 1, 2, 3, 4, 5, 6, 7, 8, 9}"
    by auto
  then show ?thesis
    by (auto simp: digit_val_def digit_char_def)
qed

lemma read_nat_snoc: "read_nat (s @ [c]) = 10 * read_nat s + digit_val c"
  by (simp add: read_nat_def)

lemma read_show_nat: "read_nat (show_nat n) = n"
proof (induction n rule: show_nat.induct)
  case (1 n)
  show ?case
  proof (cases "n < 10")
    case True
    then show ?thesis
      by (subst show_nat.simps) (simp add: read_nat_def digit_val_digit_char)
  next
    case False
    with 1 have "read_nat (show_nat (n div 10)) = n div 10"
      by simp
    moreover have "digit_val (digit_char n) = n mod 10"
      using digit_val_digit_char[of "n mod 10"] by (simp add: digit_char_def)
    ultimately show ?thesis
      using False by (subst show_nat.simps) (simp add: read_nat_snoc)
  qed
qed

lemma array_index_show_nat: "i < 4294967295 \<Longrightarrow> array_index (show_nat i) = Some i"
proof -
  assume "i < 4294967295"
  moreover have "list_all is_digit (show_nat i)"
    using show_nat_digits[of i] unfolding list_all_iff is_digit_def by blast
  ultimately show ?thesis
    by (simp add: array_index_def read_show_nat show_nat_not_Nil)
qed

lemma set_property_same:
  assumes "distinct (map fst ps)" and "(k, c) \<in> set ps"
  shows "set_property ps k c = ps"
proof -
  have "(if fst p = k then (k, c) else p) = p" if "p \<in> set ps" for p
    using assms that by (cases p) (auto simp: eq_key_imp_eq_value)
  then have "map (\<lambda>p. if fst p = k then (k, c) else p) ps = ps"
    by (intro map_idI) 
  moreover have "k \<in> fst ` set ps"
    using assms(2) by force
  ultimately show ?thesis
    by (simp add: set_property_def)
qed

lemma get_member_Object:
  "distinct (map fst ps) \<Longrightarrow> (k, c) \<in> set ps \<Longrightarrow> get_member (Object ps) k = Some c"
  by (simp add: get_member_def get_property_def)

lemma put_member_Object:
  "distinct (map fst ps) \<Longrightarrow> (k, c) \<in> set ps \<Longrightarrow> put_member (Object ps) k c = Inr (Object ps)"
  by (simp add: put_member_def set_property_same)

lemma get_member_Array:
  "i < length xs \<Longrightarrow> length xs < 4294967296 \<Longrightarrow> get_member (Array xs) (show_nat i) = Some (xs ! i)"
  by (simp add: get_member_def array_index_show_nat)

lemma put_member_Array:
  "i < length xs \<Longrightarrow> length xs < 4294967296 \<Longrightarrow>
   put_member (Array xs) (show_nat i) (xs ! i) = Inr (Array xs)"
  by (simp add: put_member_def array_index_show_nat)

lemma leaves_Nil: "([], v) \<in> set (leaves d) \<Longrightarrow> d = Value v"
  by (cases d) auto

lemma leaves_Cons:
  assumes "(s # p, v) \<in> set (leaves d)" and "well_formed d"
  shows "\<exists>c. child d s = Some c \<and> (p, v) \<in> set (leaves c) \<and> well_formed c \<and>
             set (all_keys c) \<subseteq> set (all_keys d)"
proof (cases d)
  case (Value w)
  with assms show ?thesis by simp
next
  case (Object ps)
  with assms(1) obtain e where e: "e \<in> set ps" "s = Member (fst e)" "(p, v) \<in> set (leaves (snd e))"
    by auto
  from assms(2) Object have "distinct (map fst ps)" and "well_formed (snd e)"
    using e(1) by (auto simp: list_all_iff)
  moreover from this(1) e(1) have "map_of ps (fst e) = Some (snd e)"
    by simp
  moreover have "set (all_keys (snd e)) \<subseteq> set (all_keys d)"
    using Object e(1) by auto
  ultimately show ?thesis
    using Object e by (intro exI[of _ "snd e"]) simp
next
  case (Array xs)
  with assms(1) obtain e where e: "e \<in> set (zip [0 ..< length xs] xs)" "s = Index (fst e)"
      "(p, v) \<in> set (leaves (snd e))"
    by auto
  from e(1) have i: "fst e < length xs" "snd e = xs ! fst e"
    by (auto simp: set_zip)
  then have "snd e \<in> set xs"
    by simp
  with assms(2) Array have "well_formed (snd e)" "set (all_keys (snd e)) \<subseteq> set (all_keys d)"
    by (auto simp: list_all_iff)
  then show ?thesis
    using Array e i by simp
qed

lemma sq_not_digit: "sq \<notin> set (show_nat n)"
  using show_nat_digits[of n] by (auto simp: sq_def)

lemma dot_not_digit: "CHR ''.'' \<notin> set (show_nat n)"
  using show_nat_digits[of n] by auto

lemma strip_quotes:
  assumes "\<forall>k. s = Member k \<longrightarrow> safe_key k"
  shows "replaceAll (segment_text s) [sq] [] = literal_text s"
proof (cases s)
  case (Member k)
  with assms have "sq \<notin> set k"
    by (simp add: safe_key_def)
  then have "filter (\<lambda>c. c \<noteq> sq) k = k"
    by (auto simp: filter_id_conv)
  then show ?thesis
    using Member by (simp add: replaceAll_delete)
next
  case (Index i)
  have "filter (\<lambda>c. c \<noteq> sq) (show_nat i) = show_nat i"
    using sq_not_digit[of i] by (auto simp: filter_id_conv)
  then show ?thesis
    using Index by (simp add: replaceAll_delete)
qed

lemma segment_text_no_dot:
  assumes "\<forall>k. s = Member k \<longrightarrow> safe_key k"
  shows "CHR ''.'' \<notin> set (segment_text s)"
proof (cases s)
  case (Member k)
  with assms show ?thesis by (simp add: safe_key_def sq_def)
next
  case (Index i)
  then show ?thesis by (simp add: dot_not_digit)
qed

lemma segment_text_not_Nil: "segment_text s \<noteq> []"
  by (cases s) (simp_all add: show_nat_not_Nil)

lemma segment_text_quote: "includes_str (segment_text s) [sq] \<longleftrightarrow> (\<exists>k. s = Member k)"
  by (cases s) (simp_all add: includes_str_single sq_not_digit)

lemma child_get_put:
  assumes "child d s = Some c" and "well_formed d"
  shows "get_member d (literal_text s) = Some c \<and> put_member d (literal_text s) c = Inr d"
proof (cases d)
  case (Value v)
  with assms show ?thesis by simp
next
  case (Object ps)
  with assms(1) obtain k where k: "s = Member k" "map_of ps k = Some c"
    by (cases s) simp_all
  then have "(k, c) \<in> set ps"
    by (simp add: map_of_SomeD)
  moreover from assms(2) Object have "distinct (map fst ps)"
    by simp
  ultimately show ?thesis
    using Object k(1) by (simp add: get_member_Object put_member_Object)
next
  case (Array xs)
  with assms(1) obtain i where i: "s = Index i" "i < length xs" "c = xs ! i"
    by (cases s) (simp_all split: if_splits)
  moreover from assms(2) Array have "length xs < 4294967296"
    by simp
  ultimately show ?thesis
    using Array by (simp add: get_member_Array put_member_Array)
qed

lemma reduce_keys_leaf:
  assumes "(p, v) \<in> set (leaves d)" and "p \<noteq> []" and "well_formed d"
    and "\<forall>k \<in> set (all_keys d). safe_key k"
  shows "reduce_keys d (map segment_text p) v = Inr d"
  using assms
proof (induction p arbitrary: d rule: induct_list012)
  case 1
  then show ?case by simp
next
  case (2 s)
  from leaves_Cons[OF 2(1,3)] obtain c where c: "child d s = Some c" "([], v) \<in> set (leaves c)"
    by blast
  then have "c = Value v"
    by (simp add: leaves_Nil)
  with c(1) 2(3) have put: "put_member d (literal_text s) (Value v) = Inr d"
    using child_get_put by blast
  have "\<forall>k. s = Member k \<longrightarrow> safe_key k"
    using leaves_keys[OF 2(1)] 2(4) by simp
  then have "replaceAll (segment_text s) [sq] [] = literal_text s"
    by (rule strip_quotes)
  with put show ?case by simp
next
  case (3 s t r)
  from leaves_Cons[OF 3(3,5)] obtain c where c: "child d s = Some c" "(t # r, v) \<in> set (leaves c)"
      "well_formed c" "set (all_keys c) \<subseteq> set (all_keys d)"
    by blast
  have "truthy_json c"
    using c(2) by (cases c) (auto simp: truthy_json_def)
  moreover have gp: "get_member d (literal_text s) = Some c" "put_member d (literal_text s) c = Inr d"
    using child_get_put[OF c(1) 3(5)] by simp_all
  ultimately have m: "member_or_fresh d (literal_text s) fresh = Inr (d, c)" for fresh
    by (simp add: member_or_fresh_def)
  have "reduce_keys c (map segment_text (t # r)) v = Inr c"
    using c 3(6) by (intro 3(2)) auto
  then have ih: "reduce_keys c (segment_text t # map segment_text r) v = Inr c"
    by (simp del: reduce_keys.simps)
  have "\<forall>k. s = Member k \<longrightarrow> safe_key k"
    using leaves_keys[OF 3(3)] 3(6) by simp
  then have k: "replaceAll (segment_text s) [sq] [] = literal_text s"
    by (rule strip_quotes)
  have "reduce_keys d (segment_text s # segment_text t # map segment_text r) v = Inr d"
    by (subst reduce_keys.simps) (simp add: k m ih gp(2) segment_text_not_Nil del: reduce_keys.simps)
  then show ?case by (simp del: reduce_keys.simps)
qed

lemma set_insert_index: "set (insert_index i k v obj) = insert (k, v) (set obj)"
  by (induction obj) (auto split: option.splits)

lemma set_set_property: "set (set_property obj k v) \<subseteq> insert (k, v) (set obj)"
  by (auto simp: set_property_def set_insert_index split: option.splits if_splits)

lemma set_foldl_set_property:
  "set (foldl (\<lambda>obj q. set_property obj (f q) (g q)) acc qs) \<subseteq> set acc \<union> (\<lambda>q. (f q, g q)) ` set qs"
proof (induction qs arbitrary: acc)
  case Nil
  then show ?case by simp
next
  case (Cons q qs)
  show ?case
    using Cons[of "set_property acc (f q) (g q)"] set_set_property[of acc "f q" "g q"] by auto
qed

lemma unflatten_entries_fixed:
  "\<forall>e \<in> set es. reduce_keys d (split (fst e) ''.'') (snd e) = Inr d \<Longrightarrow> unflatten_entries d es = Inr d"
  by (induction es) simp_all

text \<open>
  C1, as the claim states it, fails: flattening the document \<open>{"a.b": "x"}\<close> and
  unflattening the result over the document itself adds an object \<open>a\<close> with a member \<open>b\<close>.
\<close>

theorem unflatten_flatten_counterexample:
  "unflattenObject (flattenObject dotted_doc) dotted_doc =
     Inr (Object [(''a.b'', Value (Str ''x'')), (''a'', Object [(''b'', Value (Str ''x''))])]) \<and>
   unflattenObject (flattenObject dotted_doc) dotted_doc \<noteq> Inr dotted_doc"
  by code_simp

text \<open>
  C1, amended. For every document that is an object or an array and whose object keys
  hold no dot, no single or double quote and no \<open>][\<close>, unflattening its flattening over
  the document itself gives the document back, with its objects, arrays and empty
  containers where they were.
\<close>

theorem unflatten_flatten:
  assumes "well_formed d" and "\<forall>k \<in> set (all_keys d). safe_key k" and "is_container d"
  shows "unflattenObject (flattenObject d) d = Inr d"
proof -
  have plain: "\<forall>k \<in> set (all_keys d). plain_key k"
    using assms(2) by (simp add: safe_key_def)
  have "reduce_keys d (split (fst e) ''.'') (snd e) = Inr d" if "e \<in> set (flattenObject d)" for e
  proof -
    from that flattenObject_leaves[OF plain]
      set_foldl_set_property[of "\<lambda>q. dotted_path (fst q)" snd "[]" "leaves d"]
    obtain q where q: "q \<in> set (leaves d)" "e = (dotted_path (fst q), snd q)"
      by auto
    have ne: "fst q \<noteq> []"
      using q(1) assms(3) by (cases d) (auto simp: is_container_def)
    have safe: "\<forall>k. s = Member k \<longrightarrow> safe_key k" if "s \<in> set (fst q)" for s
      using leaves_keys[OF q(1)] assms(2) that by blast
    have "split (dotted_path (fst q)) ''.'' = map segment_text (fst q)"
      unfolding dotted_path_def using ne safe
      by (intro split_join) (auto dest: segment_text_no_dot)
    moreover have "reduce_keys d (map segment_text (fst q)) (snd q) = Inr d"
      using q(1) ne assms(1,2) by (intro reduce_keys_leaf) simp_all
    ultimately show ?thesis
      using q(2) by simp
  qed
  then show ?thesis
    by (simp add: unflattenObject_def JSON_copy_def unflatten_entries_fixed)
qed

theorem unflatten_flatten_witness:
  "well_formed sample_source \<and> list_all safe_key (all_keys sample_source) \<and>
   is_container sample_source \<and>
   unflattenObject (flattenObject sample_source) sample_source = Inr sample_source"
proof -
  have w: "well_formed sample_source" "is_container sample_source"
    by code_simp+
  have a: "list_all safe_key (all_keys sample_source)"
    by code_simp
  then have b: "\<forall>k \<in> set (all_keys sample_source). safe_key k"
    by (simp add: list_all_iff)
  from unflatten_flatten[OF w(1) b w(2)] w a show ?thesis
    by simp
qed

section \<open>Properties of the rows of a fetched document\<close>

lemma distinct_concat_tagged:
  assumes "distinct (map t ps)"
    and "\<And>p. p \<in> set ps \<Longrightarrow> distinct (g p)"
    and "\<And>p x. p \<in> set ps \<Longrightarrow> x \<in> set (g p) \<Longrightarrow> tag x = t p"
  shows "distinct (concat (map g ps))"
  using assms
proof (induction ps)
  case Nil
  then show ?case by simp
next
  case (Cons p ps)
  have "set (g p) \<inter> set (concat (map g ps)) = {}"
  proof (rule ccontr)
    assume "set (g p) \<inter> set (concat (map g ps)) \<noteq> {}"
    then obtain x p' where x: "x \<in> set (g p)" "p' \<in> set ps" "x \<in> set (g p')"
      by auto
    then have "t p = t p'"
      using Cons.prems(3)[of p x] Cons.prems(3)[of p' x] by simp
    with x(2) Cons.prems(1) show False
      by auto
  qed
  moreover have "distinct (concat (map g ps))"
    using Cons by simp
  ultimately show ?case
    using Cons.prems(2) by simp
qed

lemma distinct_map_map:
  "distinct (map f xs) \<Longrightarrow> inj_on g (f ` set xs) \<Longrightarrow> distinct (map (\<lambda>x. g (f x)) xs)"
  by (induction xs) (auto simp: inj_on_def)

lemma distinct_leaves: "well_formed d \<Longrightarrow> distinct (map fst (leaves d))"
proof (induction d rule: leaves.induct)
  case (1 v)
  then show ?case by simp
next
  case (2 ps)
  have "distinct (concat (map (\<lambda>p. map (\<lambda>r. Member (fst p) # r) (map fst (leaves (snd p)))) ps))"
  proof (rule distinct_concat_tagged[where t = "\<lambda>p. Member (fst p)" and tag = hd])
    from 2(2) have "distinct (map fst ps)"
      by simp
    then show "distinct (map (\<lambda>p. Member (fst p)) ps)"
      by (rule distinct_map_map) (simp add: inj_on_def)
  next
    fix p assume "p \<in> set ps"
    with 2 have "distinct (map fst (leaves (snd p)))"
      by (simp add: list_all_iff)
    then show "distinct (map (\<lambda>r. Member (fst p) # r) (map fst (leaves (snd p))))"
      by (simp add: distinct_map inj_on_def)
  next
    fix p x assume "x \<in> set (map (\<lambda>r. Member (fst p) # r) (map fst (leaves (snd p))))"
    then show "hd x = Member (fst p)" by auto
  qed
  then show ?case
    by (simp add: map_concat comp_def)
next
  case (3 xs)
  have "distinct (concat (map (\<lambda>p. map (\<lambda>r. Index (fst p) # r) (map fst (leaves (snd p))))
      (zip [0 ..< length xs] xs)))"
  proof (rule distinct_concat_tagged[where t = "\<lambda>p. Index (fst p)" and tag = hd])
    have "distinct (map fst (zip [0 ..< length xs] xs))"
      by simp
    then show "distinct (map (\<lambda>p. Index (fst p)) (zip [0 ..< length xs] xs))"
      by (rule distinct_map_map) (simp add: inj_on_def)
  next
    fix p assume p: "p \<in> set (zip [0 ..< length xs] xs)"
    then have "snd p \<in> set xs"
      by (metis prod.collapse set_zip_rightD)
    with 3 p have "distinct (map fst (leaves (snd p)))"
      by (simp add: list_all_iff)
    then show "distinct (map (\<lambda>r. Index (fst p) # r) (map fst (leaves (snd p))))"
      by (simp add: distinct_map inj_on_def)
  next
    fix p x assume "x \<in> set (map (\<lambda>r. Index (fst p) # r) (map fst (leaves (snd p))))"
    then show "hd x = Index (fst p)" by auto
  qed
  then show ?case
    by (simp add: map_concat comp_def)
qed

lemma append_char_unique:
  "c \<notin> set a \<Longrightarrow> c \<notin> set b \<Longrightarrow> a @ c # r = b @ c # r' \<Longrightarrow> a = b \<and> r = r'"
proof (induction a arbitrary: b)
  case Nil
  then show ?case by (cases b) auto
next
  case (Cons x a)
  then show ?case by (cases b) auto
qed

lemma show_nat_inj:
  assumes "show_nat i = show_nat j"
  shows "i = j"
proof -
  have "read_nat (show_nat i) = read_nat (show_nat j)"
    by (simp only: assms)
  then show ?thesis
    by (simp only: read_show_nat)
qed

lemma hd_of_append: "a \<noteq> [] \<Longrightarrow> a @ t = c # u \<Longrightarrow> c \<in> set a"
  by (cases a) auto

text \<open>
  The text of a segment can be read back from the front of a flat key: what follows it
  is the end of the key or a dot.
\<close>

lemma segment_text_decode:
  assumes "\<forall>k. s = Member k \<longrightarrow> sq \<notin> set k" and "\<forall>k. s' = Member k \<longrightarrow> sq \<notin> set k"
    and "t = [] \<or> hd t = CHR ''.''" and "t' = [] \<or> hd t' = CHR ''.''"
    and "segment_text s @ t = segment_text s' @ t'"
  shows "s = s' \<and> t = t'"
proof (cases s)
  case (Member k)
  note s = this
  show ?thesis
  proof (cases s')
    case (Member k')
    with s assms(5) have "k @ sq # t = k' @ sq # t'"
      by simp
    with assms(1,2) s Member show ?thesis
      using append_char_unique[of sq k k' t t'] by simp
  next
    case (Index i)
    with s assms(5) have "sq # k @ sq # t = show_nat i @ t'"
      by simp
    from hd_of_append[OF show_nat_not_Nil this[symmetric]] show ?thesis
      by (simp add: sq_not_digit)
  qed
next
  case (Index i)
  note s = this
  show ?thesis
  proof (cases s')
    case (Member k')
    with s assms(5) have "show_nat i @ t = sq # k' @ sq # t'"
      by simp
    from hd_of_append[OF show_nat_not_Nil this] show ?thesis
      by (simp add: sq_not_digit)
  next
    case (Index j)
    with s assms(5) have e: "show_nat i @ t = show_nat j @ t'"
      by simp
    show ?thesis
    proof (cases t)
      case Nil
      note t = this
      show ?thesis
      proof (cases t')
        case Nil
        with t e s Index show ?thesis
          by (simp add: show_nat_inj)
      next
        case (Cons c u)
        with assms(4) have "c = CHR ''.''" by simp
        with e t Cons have "show_nat i = show_nat j @ CHR ''.'' # u"
          by simp
        then have "CHR ''.'' \<in> set (show_nat i)"
          by simp
        then show ?thesis
          by (simp add: dot_not_digit)
      qed
    next
      case (Cons c u)
      with assms(3) have c: "c = CHR ''.''" by simp
      show ?thesis
      proof (cases t')
        case Nil
        with e \<open>t = c # u\<close> c have "show_nat j = show_nat i @ CHR ''.'' # u"
          by simp
        then have "CHR ''.'' \<in> set (show_nat j)"
          by simp
        then show ?thesis
          by (simp add: dot_not_digit)
      next
        case (Cons c' u')
        with assms(4) have "c' = CHR ''.''" by simp
        with e c \<open>t = c # u\<close> Cons
        have "show_nat i = show_nat j \<and> u = u'"
          using append_char_unique[of "CHR ''.''" "show_nat i" "show_nat j" u u']
          by (simp add: dot_not_digit)
        with s Index c \<open>t = c # u\<close> Cons \<open>c' = CHR ''.''\<close> show ?thesis
          by (simp add: show_nat_inj)
      qed
    qed
  qed
qed

lemma dotted_path_Nil: "dotted_path [] = []"
  by (simp add: dotted_path_def)

lemma dotted_path_Cons:
  "dotted_path (s # r) = segment_text s @ (if r = [] then [] else CHR ''.'' # dotted_path r)"
  by (cases r) (simp_all add: dotted_path_def)

lemma dotted_path_inj:
  assumes "\<forall>k. Member k \<in> set p \<longrightarrow> sq \<notin> set k" and "\<forall>k. Member k \<in> set p' \<longrightarrow> sq \<notin> set k"
    and "dotted_path p = dotted_path p'"
  shows "p = p'"
  using assms
proof (induction p arbitrary: p')
  case Nil
  then show ?case
    by (cases p') (simp_all add: dotted_path_Nil dotted_path_Cons segment_text_not_Nil)
next
  case (Cons s r)
  show ?case
  proof (cases p')
    case Nil
    with Cons.prems(3) show ?thesis
      by (simp add: dotted_path_Nil dotted_path_Cons segment_text_not_Nil)
  next
    case (Cons s' r')
    define t where "t = (if r = [] then [] else CHR ''.'' # dotted_path r)"
    define t' where "t' = (if r' = [] then [] else CHR ''.'' # dotted_path r')"
    have e: "segment_text s @ t = segment_text s' @ t'"
      using Cons.prems(3) Cons by (simp add: dotted_path_Cons t_def t'_def)
    have "s = s' \<and> t = t'"
    proof (rule segment_text_decode[OF _ _ _ _ e])
      show "\<forall>k. s = Member k \<longrightarrow> sq \<notin> set k"
        using Cons.prems(1) by simp
      show "\<forall>k. s' = Member k \<longrightarrow> sq \<notin> set k"
        using Cons.prems(2) Cons by simp
      show "t = [] \<or> hd t = CHR ''.''"
        by (simp add: t_def)
      show "t' = [] \<or> hd t' = CHR ''.''"
        by (simp add: t'_def)
    qed
    then have st: "s = s'" "t = t'"
      by simp_all
    have "r = r'"
    proof (cases "r = []")
      case True
      with st(2) show ?thesis
        by (simp add: t_def t'_def split: if_splits)
    next
      case False
      with st(2) have "r' \<noteq> []" "dotted_path r = dotted_path r'"
        by (simp_all add: t_def t'_def split: if_splits)
      with Cons.IH[of r'] Cons.prems(1,2) Cons show ?thesis
        by simp
    qed
    with st(1) Cons show ?thesis
      by simp
  qed
qed

text \<open>
  Which flat keys are array indices: those of the scalar elements of a root array, and no
  other.
\<close>

lemma sq_not_is_digit: "\<not> is_digit sq"
  by (simp add: is_digit_def sq_def)

lemma array_index_not_digits: "c \<in> set k \<Longrightarrow> \<not> is_digit c \<Longrightarrow> array_index k = None"
  by (auto simp: array_index_def list_all_iff)

lemma array_index_dotted_path:
  assumes "\<not> root_element (p, v)"
  shows "array_index (dotted_path p) = None"
proof (cases p)
  case Nil
  then show ?thesis by (simp add: dotted_path_Nil array_index_def)
next
  case (Cons s r)
  show ?thesis
  proof (cases s)
    case (Member k)
    with Cons have "sq \<in> set (dotted_path p)"
      by (simp add: dotted_path_Cons)
    then show ?thesis
      by (rule array_index_not_digits) (rule sq_not_is_digit)
  next
    case (Index i)
    with Cons assms have "r \<noteq> []"
      by auto
    with Cons have "CHR ''.'' \<in> set (dotted_path p)"
      by (simp add: dotted_path_Cons)
    then show ?thesis
      by (rule array_index_not_digits) (simp add: is_digit_def)
  qed
qed

lemma root_element_Index: "root_element (Index n # r, v) \<longleftrightarrow> r = []"
  by (cases r) simp_all

lemma first_index_Index: "first_index (Index i # r, v) = i"
  by (simp add: first_index_def)

lemma leaves_Array_index:
  "q \<in> set (leaves (Array xs)) \<Longrightarrow> \<exists>i r. i < length xs \<and> fst q = Index i # r"
  by (auto simp: set_zip)

lemma leaves_root_element:
  assumes "q \<in> set (leaves d)" and "root_element q"
  shows "\<exists>xs i. d = Array xs \<and> i < length xs \<and> fst q = [Index i]"
proof -
  from assms(2) obtain i where i: "fst q = [Index i]"
    by (cases q rule: root_element.cases) simp_all
  show ?thesis
  proof (cases d)
    case (Value w)
    with assms(1) i show ?thesis by simp
  next
    case (Object ps)
    with assms(1) i show ?thesis by auto
  next
    case (Array xs)
    with assms(1) i leaves_Array_index[of q xs] show ?thesis by auto
  qed
qed

lemma array_index_leaf:
  assumes "well_formed d" and "q \<in> set (leaves d)"
  shows "array_index (dotted_path (fst q)) = (if root_element q then Some (first_index q) else None)"
proof (cases "root_element q")
  case True
  from leaves_root_element[OF assms(2) True] obtain xs i where
    x: "d = Array xs" "i < length xs" "fst q = [Index i]"
    by blast
  with assms(1) have "i < 4294967295"
    by simp
  then show ?thesis
    using True x(3) by (simp add: dotted_path_def array_index_show_nat first_index_def)
next
  case False
  then show ?thesis
    using array_index_dotted_path[of "fst q" "snd q"] by simp
qed

text \<open>The scalar elements of a root array are met by ascending index.\<close>

lemma leaves_Array_snoc:
  "leaves (Array (xs @ [x])) =
     leaves (Array xs) @ map (\<lambda>q. (Index (length xs) # fst q, snd q)) (leaves x)"
  by simp

lemma leaves_path_not_Nil:
  assumes "q \<in> set (leaves x)" and "\<forall>v. x \<noteq> Value v"
  shows "fst q \<noteq> []"
proof
  assume "fst q = []"
  then obtain v where "q = ([], v)"
    by (cases q) simp
  with assms(1) have "([], v) \<in> set (leaves x)"
    by simp
  from leaves_Nil[OF this] assms(2) show False
    by simp
qed

lemma root_elements_of_element:
  "filter root_element (map (\<lambda>q. (Index n # fst q, snd q)) (leaves x)) =
     (case x of Value v \<Rightarrow> [([Index n], v)] | _ \<Rightarrow> [])"
proof (cases "\<exists>v. x = Value v")
  case True
  then show ?thesis by auto
next
  case False
  then have "\<not> root_element (Index n # fst q, snd q)" if "q \<in> set (leaves x)" for q
    using leaves_path_not_Nil[OF that] by (simp add: root_element_Index)
  then have "filter root_element (map (\<lambda>q. (Index n # fst q, snd q)) (leaves x)) = []"
    by (simp add: filter_empty_conv)
  with False show ?thesis
    by (cases x) simp_all
qed

lemma sorted_root_elements_Array:
  "sorted_wrt (<) (map first_index (filter root_element (leaves (Array xs))))"
proof (induction xs rule: rev_induct)
  case Nil
  then show ?case by simp
next
  case (snoc x xs)
  define old where "old = map first_index (filter root_element (leaves (Array xs)))"
  have below: "i < length xs" if "i \<in> set old" for i
  proof -
    from that obtain q where "q \<in> set (leaves (Array xs))" "root_element q" "i = first_index q"
      by (auto simp: old_def)
    with leaves_root_element[OF this(1,2)] show ?thesis
      by (auto simp: first_index_def)
  qed
  have s: "sorted_wrt (<) old"
    using snoc by (simp add: old_def)
  have "sorted_wrt (<) (old @ map first_index (case x of Value v \<Rightarrow> [([Index (length xs)], v)] | _ \<Rightarrow> []))"
    using s below by (cases x) (simp_all add: sorted_wrt_append first_index_Index)
  then show ?case
    unfolding leaves_Array_snoc old_def
    by (simp add: root_elements_of_element del: leaves.simps)
qed

lemma sorted_root_elements:
  "sorted_wrt (<) (map first_index (filter root_element (leaves d)))"
proof (cases d)
  case (Array xs)
  then show ?thesis
    using sorted_root_elements_Array by simp
next
  case (Value v)
  then show ?thesis by simp
next
  case (Object ps)
  have "filter root_element (leaves d) = []"
    using leaves_root_element[of _ d] Object by (auto simp: filter_empty_conv)
  then show ?thesis by simp
qed

text \<open>
  Properties created one after the other under distinct names, the array indices among
  them in ascending order, are enumerated with the array indices first.
\<close>

lemma insert_index_ordered:
  assumes "\<forall>p \<in> set A. \<exists>j. array_index (fst p) = Some j \<and> j < i"
    and "\<forall>p \<in> set B. array_index (fst p) = None"
  shows "insert_index i k v (A @ B) = A @ (k, v) # B"
  using assms
proof (induction A)
  case Nil
  then show ?case by (cases B) simp_all
next
  case (Cons a A)
  then show ?case by auto
qed

lemma foldl_set_property_order:
  fixes L :: "(string \<times> 'v) list"
  assumes "distinct (map fst L)"
    and "sorted_wrt (<) (map (\<lambda>e. the (array_index (fst e))) (filter (\<lambda>e. array_index (fst e) \<noteq> None) L))"
  shows "foldl (\<lambda>obj e. set_property obj (fst e) (snd e)) [] L =
           filter (\<lambda>e. array_index (fst e) \<noteq> None) L @ filter (\<lambda>e. array_index (fst e) = None) L"
  using assms
proof (induction L rule: rev_induct)
  case Nil
  then show ?case by simp
next
  case (snoc e L)
  let ?A = "filter (\<lambda>e. array_index (fst e) \<noteq> None) L"
  let ?B = "filter (\<lambda>e. array_index (fst e) = None) L"
  have IH: "foldl (\<lambda>obj e. set_property obj (fst e) (snd e)) [] L = ?A @ ?B"
    using snoc by (simp add: sorted_wrt_append split: if_splits)
  have new: "fst e \<notin> fst ` set (?A @ ?B)"
    using snoc.prems(1) by auto
  show ?case
  proof (cases "array_index (fst e)")
    case None
    then have "set_property (?A @ ?B) (fst e) (snd e) = ?A @ ?B @ [e]"
      using new by (simp add: set_property_def)
    then show ?thesis
      using None IH by simp
  next
    case (Some i)
    have "\<forall>p \<in> set ?A. \<exists>j. array_index (fst p) = Some j \<and> j < i"
      using snoc.prems(2) Some by (auto simp: sorted_wrt_append)
    then have "insert_index i (fst e) (snd e) (?A @ ?B) = ?A @ (fst e, snd e) # ?B"
      by (intro insert_index_ordered) simp_all
    then have "set_property (?A @ ?B) (fst e) (snd e) = ?A @ e # ?B"
      using new Some by (simp add: set_property_def)
    then show ?thesis
      using Some IH by simp
  qed
qed

text \<open>
  The flattened document: the leaves under their dotted paths, in the order of
  \<open>enumeration\<close>.
\<close>

lemma flattenObject_enumeration:
  assumes "well_formed d" and "\<forall>k \<in> set (all_keys d). unquoted_key k"
  shows "flattenObject d = map (\<lambda>q. (dotted_path (fst q), snd q)) (enumeration d)"
proof -
  let ?f = "\<lambda>q. (dotted_path (fst q), snd q)"
  let ?L = "map ?f (leaves d)"
  have plain: "\<forall>k \<in> set (all_keys d). plain_key k"
    using assms(2) by (simp add: unquoted_key_def)
  have quote: "\<forall>k. Member k \<in> set (fst q) \<longrightarrow> sq \<notin> set k" if "q \<in> set (leaves d)" for q
    using leaves_keys[OF that] assms(2) by (auto simp: unquoted_key_def)
  have "inj_on dotted_path (fst ` set (leaves d))"
    by (rule inj_onI) (use quote in \<open>auto intro!: dotted_path_inj\<close>)
  with distinct_leaves[OF assms(1)] have "distinct (map (\<lambda>q. dotted_path (fst q)) (leaves d))"
    by (rule distinct_map_map)
  then have d: "distinct (map fst ?L)"
    by (simp add: comp_def)
  have idx: "filter (\<lambda>e. array_index (fst e) \<noteq> None) ?L = map ?f (filter root_element (leaves d))"
    using array_index_leaf[OF assms(1)]
    by (auto simp: filter_map comp_def split: if_splits intro!: filter_cong arg_cong[where f = "map ?f"])
  have nidx: "filter (\<lambda>e. array_index (fst e) = None) ?L =
      map ?f (filter (\<lambda>q. \<not> root_element q) (leaves d))"
    using array_index_leaf[OF assms(1)]
    by (auto simp: filter_map comp_def split: if_splits intro!: filter_cong arg_cong[where f = "map ?f"])
  have m: "map (\<lambda>e. the (array_index (fst e))) (map ?f (filter root_element (leaves d))) =
      map first_index (filter root_element (leaves d))"
    using array_index_leaf[OF assms(1)] by simp
  have s: "sorted_wrt (<) (map (\<lambda>e. the (array_index (fst e)))
      (filter (\<lambda>e. array_index (fst e) \<noteq> None) ?L))"
    unfolding idx m by (rule sorted_root_elements)
  have "flattenObject d = foldl (\<lambda>obj e. set_property obj (fst e) (snd e)) [] ?L"
    unfolding flattenObject_leaves[OF plain] by (simp add: foldl_map)
  also have "\<dots> = filter (\<lambda>e. array_index (fst e) \<noteq> None) ?L @ filter (\<lambda>e. array_index (fst e) = None) ?L"
    by (rule foldl_set_property_order[OF d s])
  finally show ?thesis
    unfolding idx nidx by (simp add: enumeration_def)
qed

lemma filter_keys_map_of:
  "distinct (map fst S) \<Longrightarrow>
   filter (\<lambda>k. P (map_of S k)) (map fst S) = map fst (filter (\<lambda>e. P (Some (snd e))) S)"
  by (auto simp: filter_map comp_def intro!: filter_cong arg_cong[where f = "map fst"])

lemma keys_newRows_enumeration:
  assumes "well_formed d" and "\<forall>k \<in> set (all_keys d). unquoted_key k"
  shows "map key (newRows rs (flattenObject d) T) =
           map (\<lambda>q. dotted_path (fst q)) (filter string_leaf (enumeration d))"
proof -
  have "distinct (map fst (flattenObject d))"
    using distinct_keys_flattenObject[of d] by (simp add: keys_def)
  then have "map key (newRows rs (flattenObject d) T) =
      map fst (filter (\<lambda>e. is_string (Some (snd e))) (flattenObject d))"
    unfolding keys_newRows get_property_def keys_def by (rule filter_keys_map_of)
  then show ?thesis
    unfolding flattenObject_enumeration[OF assms]
    by (simp add: filter_map comp_def string_leaf_def[abs_def])
qed

text \<open>
  Two leaves under one flat key: with a single quote in an object key the two string
  leaves of this document get one row.
\<close>

lemma colliding_keys:
  "map fst (leaves quoted_doc) = [[Member (''a'' @ [sq] @ ''.'' @ [sq] @ ''b'')], [Member ''a'', Member ''b'']] \<and>
   list_all string_leaf (leaves quoted_doc) \<and>
   map key (newRows [] (flattenObject quoted_doc) []) = [key_a_b]"
  by code_simp

text \<open>The flattening of a document whose root is an array, computed step by step.\<close>

lemma array_index_1: "array_index ''1'' = Some 1"
  by (simp add: array_index_def is_digit_def read_nat_def digit_val_def show_nat.simps digit_char_def)

lemma flattenObject_array_doc:
  "flattenObject array_doc = [(''1'', Str ''q''), (''0.'' @ [sq] @ ''a'' @ [sq], Str ''p'')]"
proof -
  define k where "k = ''0.'' @ [sq] @ ''a'' @ [sq]"
  have w: "map (\<lambda>p. (flat_key (fst p), snd p)) (walk [] array_doc) = [(k, Str ''p''), (''1'', Str ''q'')]"
    unfolding k_def by code_simp
  have n: "array_index k = None"
    by (rule array_index_not_digits[of "CHR ''.''"]) (simp_all add: is_digit_def k_def)
  have ne: "k \<noteq> ''1''"
    by (simp add: k_def)
  have "flattenObject array_doc =
      foldl (\<lambda>newObj p. set_property newObj (fst p) (snd p)) []
        (map (\<lambda>p. (flat_key (fst p), snd p)) (walk [] array_doc))"
    by (simp add: flattenObject_def foldl_map)
  also have "\<dots> = set_property (set_property [] k (Str ''p'')) ''1'' (Str ''q'')"
    unfolding w by simp
  also have "set_property [] k (Str ''p'') = [(k, Str ''p'')]"
    by (simp add: set_property_def n)
  also have "set_property [(k, Str ''p'')] ''1'' (Str ''q'') = insert_index 1 ''1'' (Str ''q'') [(k, Str ''p'')]"
    using ne by (simp add: set_property_def array_index_1)
  also have "\<dots> = [(''1'', Str ''q''), (k, Str ''p'')]"
    by (simp add: n)
  finally show ?thesis
    by (simp add: k_def)
qed

text \<open>
  C6, as the claim states it, fails: the root of this document is an array whose first
  element is an object and whose second element is a string. The traversal meets the
  leaf at \<open>0\<close>, \<open>a\<close> before the leaf at \<open>1\<close>; the rows come out in the other order.
\<close>

theorem newRows_order_counterexample:
  "map fst (leaves array_doc) = [[Index 0, Member ''a''], [Index 1]] \<and>
   list_all string_leaf (leaves array_doc) \<and>
   map key (newRows [] (flattenObject array_doc) []) = [''1'', ''0.'' @ [sq] @ ''a'' @ [sq]] \<and>
   map key (newRows [] (flattenObject array_doc) []) \<noteq>
     map (\<lambda>q. dotted_path (fst q)) (filter string_leaf (leaves array_doc))"
  unfolding flattenObject_array_doc by code_simp

text \<open>
  C6, amended. For every prior row table and every fetched source document whose object
  keys hold no single or double quote and no \<open>][\<close> (so that no two leaves share a flat
  key), the new table has exactly one row for each string-valued leaf of the source,
  under the dotted path of the leaf, in the order in which \<open>Object.keys\<close> enumerates the
  flattened source: the scalar elements of a root array first, by index, then every other
  leaf in traversal order. When no leaf is a scalar element of a root array, as in every
  document whose root is an object, that is the traversal order. A row of the prior table
  whose key is the dotted path of no string-valued leaf of the source appears in no row
  of the new table. The fetched target has no part in this.
\<close>

theorem newRows_leaves:
  assumes "well_formed d" and "\<forall>k \<in> set (all_keys d). unquoted_key k"
  shows "map key (newRows rs (flattenObject d) T) =
           map (\<lambda>q. dotted_path (fst q)) (filter string_leaf (enumeration d)) \<and>
         distinct (map (\<lambda>q. dotted_path (fst q)) (filter string_leaf (enumeration d))) \<and>
         ((\<forall>q \<in> set (leaves d). \<not> root_element q) \<longrightarrow> enumeration d = leaves d) \<and>
         (\<forall>r \<in> set rs.
            (\<forall>q \<in> set (leaves d). string_leaf q \<longrightarrow> key r \<noteq> dotted_path (fst q)) \<longrightarrow>
            key r \<notin> key ` set (newRows rs (flattenObject d) T))"
proof (intro conjI ballI impI)
  note ks = keys_newRows_enumeration[OF assms, of rs T]
  show "map key (newRows rs (flattenObject d) T) =
      map (\<lambda>q. dotted_path (fst q)) (filter string_leaf (enumeration d))"
    by (rule ks)
  have "distinct (map key (newRows rs (flattenObject d) T))"
    unfolding keys_newRows using distinct_keys_flattenObject[of d] by simp
  then show "distinct (map (\<lambda>q. dotted_path (fst q)) (filter string_leaf (enumeration d)))"
    unfolding ks .
  show "enumeration d = leaves d" if "\<forall>q \<in> set (leaves d). \<not> root_element q"
    using that by (simp add: enumeration_def filter_empty_conv filter_id_conv)
  show "key r \<notin> key ` set (newRows rs (flattenObject d) T)"
    if "r \<in> set rs" "\<forall>q \<in> set (leaves d). string_leaf q \<longrightarrow> key r \<noteq> dotted_path (fst q)" for r
  proof
    assume "key r \<in> key ` set (newRows rs (flattenObject d) T)"
    then have "key r \<in> set (map key (newRows rs (flattenObject d) T))"
      by simp
    then obtain q where "q \<in> set (enumeration d)" "string_leaf q" "key r = dotted_path (fst q)"
      unfolding ks by auto
    with that(2) show False
      by (auto simp: enumeration_def)
  qed
qed

theorem newRows_leaves_witness:
  "well_formed sample_source \<and> list_all unquoted_key (all_keys sample_source) \<and>
   list_all (\<lambda>q. \<not> root_element q) (leaves sample_source) \<and>
   map (\<lambda>q. dotted_path (fst q)) (filter string_leaf (leaves sample_source)) = [key_a_b, key_c] \<and>
   map key (newRows sample_rows (flattenObject sample_source) (flattenObject sample_target)) =
     [key_a_b, key_c] \<and>
   key_gone \<in> key ` set sample_rows \<and>
   list_all (\<lambda>q. \<not> string_leaf q \<or> key_gone \<noteq> dotted_path (fst q)) (leaves sample_source) \<and>
   key_gone \<notin> key ` set (newRows sample_rows (flattenObject sample_source) (flattenObject sample_target)) \<and>
   well_formed array_doc \<and> list_all unquoted_key (all_keys array_doc) \<and>
   enumeration array_doc = [([Index 1], Str ''q''), ([Index 0, Member ''a''], Str ''p'')] \<and>
   map key (newRows [] (flattenObject array_doc) []) = [''1'', ''0.'' @ [sq] @ ''a'' @ [sq]]"
proof -
  have w: "well_formed sample_source" "well_formed array_doc"
    by code_simp (simp add: array_doc_def)
  have a: "list_all unquoted_key (all_keys sample_source)" "list_all unquoted_key (all_keys array_doc)"
    by code_simp+
  then have b: "\<forall>k \<in> set (all_keys sample_source). unquoted_key k"
    "\<forall>k \<in> set (all_keys array_doc). unquoted_key k"
    by (simp_all add: list_all_iff)
  have n: "list_all (\<lambda>q. \<not> root_element q) (leaves sample_source)"
    by code_simp
  then have n': "\<forall>q \<in> set (leaves sample_source). \<not> root_element q"
    by (simp add: list_all_iff)
  have l: "map (\<lambda>q. dotted_path (fst q)) (filter string_leaf (leaves sample_source)) = [key_a_b, key_c]"
    by code_simp
  have g: "key_gone \<in> key ` set sample_rows"
    by code_simp
  then obtain r where r: "r \<in> set sample_rows" "key r = key_gone"
    by auto
  have h: "list_all (\<lambda>q. \<not> string_leaf q \<or> key_gone \<noteq> dotted_path (fst q)) (leaves sample_source)"
    by code_simp
  then have h': "\<forall>q \<in> set (leaves sample_source). string_leaf q \<longrightarrow> key r \<noteq> dotted_path (fst q)"
    using r(2) by (auto simp: list_all_iff)
  have e: "enumeration array_doc = [([Index 1], Str ''q''), ([Index 0, Member ''a''], Str ''p'')]"
    by code_simp
  have e': "map (\<lambda>q. dotted_path (fst q))
      (filter string_leaf [([Index 1], Str ''q''), ([Index 0, Member ''a''], Str ''p'')]) =
      [''1'', ''0.'' @ [sq] @ ''a'' @ [sq]]"
    by code_simp
  note t = newRows_leaves[OF w(1) b(1), of sample_rows "flattenObject sample_target"]
  note u = newRows_leaves[OF w(2) b(2), of "[]" "[]"]
  from t n' have "enumeration sample_source = leaves sample_source"
    by blast
  with t l have k: "map key (newRows sample_rows (flattenObject sample_source) (flattenObject sample_target)) =
      [key_a_b, key_c]"
    by simp
  from t r(1) h' have "key r \<notin> key ` set (newRows sample_rows (flattenObject sample_source) (flattenObject sample_target))"
    by blast
  then have o: "key_gone \<notin> key ` set (newRows sample_rows (flattenObject sample_source) (flattenObject sample_target))"
    by (simp add: r(2))
  from u e e' have v: "map key (newRows [] (flattenObject array_doc) []) = [''1'', ''0.'' @ [sq] @ ''a'' @ [sq]]"
    by simp
  show ?thesis
    using w a n l k g h o e v by simp
qed

end
